theory Spec2Isabelle
  imports Complex_Main "HOL-Library.Word"
begin

unbundle bit_operations_syntax

section \<open>Machine types\<close>

text \<open>
  The packetizer is C: \<^verbatim>\<open>unsigned int\<close> is a 32-bit word whose arithmetic wraps,
  \<^verbatim>\<open>int\<close> (the scheme identifiers and the validity result) the 32 bits of a signed
  integer (\<open>sint\<close> reads them; the packetizer only compares and forwards them),
  \<^verbatim>\<open>unsigned char\<close> a byte.
\<close>

type_synonym uint = "32 word"
type_synonym cint = "32 word"
type_synonym byte = "8 word"

section \<open>The collaborators of the packetizer\<close>

text \<open>
  \<^verbatim>\<open>packetizer.c\<close> calls the CRC, FEC and interleaver modules of the library, whose
  sources are not part of the verified files. They are parameters of the model: one
  record holds what each of them computes. An object made by \<^verbatim>\<open>fec_create(fs, NULL)\<close> or
  \<^verbatim>\<open>interleaver_create(n, type)\<close> is represented by the arguments it was made from.
  A codec that reads \<open>n\<close> bytes of its input buffer gets those bytes as a list and
  yields the bytes it writes to the start of its output buffer.
\<close>

datatype fec = Fec (fec_scheme: cint)

datatype interleaver = Interleaver (intlv_len: uint) (intlv_type: cint)

record liquid =
  crc_get_length :: "cint \<Rightarrow> uint"
  crc_generate_key :: "cint \<Rightarrow> byte list \<Rightarrow> uint"
  crc_validate_message :: "cint \<Rightarrow> byte list \<Rightarrow> uint \<Rightarrow> cint"
  fec_get_enc_msg_length :: "cint \<Rightarrow> uint \<Rightarrow> uint"
  fec_encode :: "fec \<Rightarrow> uint \<Rightarrow> byte list \<Rightarrow> byte list"
  fec_decode :: "fec \<Rightarrow> uint \<Rightarrow> byte list \<Rightarrow> byte list"
  interleaver_encode :: "interleaver \<Rightarrow> byte list \<Rightarrow> byte list"
  interleaver_decode :: "interleaver \<Rightarrow> byte list \<Rightarrow> byte list"
  LIQUID_INTERLEAVER_BLOCK :: cint
  uninit :: "nat \<Rightarrow> byte"

section \<open>Length calculator\<close>

definition packetizer_compute_enc_msg_len ::
  "liquid \<Rightarrow> uint \<Rightarrow> cint \<Rightarrow> cint \<Rightarrow> cint \<Rightarrow> uint" where
  "packetizer_compute_enc_msg_len L n crc fec0 fec1 =
     (let k = n + crc_get_length L crc;
          n0 = fec_get_enc_msg_length L fec0 k;
          n1 = fec_get_enc_msg_length L fec1 n0
      in n1)"

text \<open>
  The search loop of \<^verbatim>\<open>packetizer_compute_dec_msg_len\<close>, with its two variables
  \<open>n_hat\<close> and \<open>k_hat\<close> as arguments. Nothing bounds the number of iterations, so
  the loop is a partial function: \<open>None\<close> is a search that never returns.
\<close>

partial_function (option) dec_msg_len_loop ::
  "liquid \<Rightarrow> uint \<Rightarrow> cint \<Rightarrow> cint \<Rightarrow> cint \<Rightarrow> uint \<Rightarrow> uint \<Rightarrow> uint option" where
  "dec_msg_len_loop L k crc fec0 fec1 n_hat k_hat =
     (if k_hat < k then
        (let k_hat' = packetizer_compute_enc_msg_len L n_hat crc fec0 fec1 in
         if k_hat' = k then Some n_hat
         else if k_hat' > k then Some n_hat
         else dec_msg_len_loop L k crc fec0 fec1 (n_hat + 1) k_hat')
      else Some 0)"

definition packetizer_compute_dec_msg_len ::
  "liquid \<Rightarrow> uint \<Rightarrow> cint \<Rightarrow> cint \<Rightarrow> cint \<Rightarrow> uint option" where
  "packetizer_compute_dec_msg_len L k crc fec0 fec1 = dec_msg_len_loop L k crc fec0 fec1 0 0"


section \<open>The packetizer object\<close>

text \<open>
  Modelled from the spec: the declarations of the two structs (in
  \<^verbatim>\<open>liquid.internal.h\<close>) are missing; the fields are those of the data model of the
  specification, under the names by which \<^verbatim>\<open>packetizer.c\<close> reads and writes them.
  A \<^verbatim>\<open>struct fecintlv_plan\<close> is one stage of the plan: its lengths, its FEC scheme
  and codec, its interleaver type and interleaver. A \<^verbatim>\<open>struct packetizer_s\<close> holds
  the configuration, the plan (an array of \<open>plan_len\<close> stages) and the two scratch
  buffers (arrays of \<open>buffer_len\<close> bytes). Arrays are lists; the codec and interleaver
  a stage owns are held in the stage.
\<close>

record fecintlv_plan =
  dec_msg_len :: uint
  enc_msg_len :: uint
  fs :: cint
  f :: fec
  intlv_scheme :: cint
  q :: interleaver

record packetizer =
  msg_len :: uint
  packet_len :: uint
  check :: cint
  crc_length :: uint
  plan :: "fecintlv_plan list"
  plan_len :: uint
  buffer_len :: uint
  buffer_0 :: "byte list"
  buffer_1 :: "byte list"

text \<open>
  An access outside an array is undefined behaviour in C. The model makes it a result:
  every read and write of a buffer checks the bounds and yields \<open>Inl OutOfBounds\<close>
  where the C code would leave its arrays. \<open>InvalidPointer\<close> is the use of a null or
  freed handle.
\<close>

datatype error = OutOfBounds | InvalidPointer

definition bind_error :: "error + 'a \<Rightarrow> ('a \<Rightarrow> error + 'b) \<Rightarrow> error + 'b" where
  "bind_error m k = (case m of Inl e \<Rightarrow> Inl e | Inr x \<Rightarrow> k x)"

text \<open>Reading the first \<open>n\<close> bytes of an array, and overwriting the start of an array.\<close>

definition buf_read :: "byte list \<Rightarrow> nat \<Rightarrow> error + byte list" where
  "buf_read buf n = (if n \<le> length buf then Inr (take n buf) else Inl OutOfBounds)"

definition buf_write :: "byte list \<Rightarrow> byte list \<Rightarrow> error + byte list" where
  "buf_write buf xs =
     (if length xs \<le> length buf then Inr (xs @ drop (length xs) buf) else Inl OutOfBounds)"

text \<open>\<^verbatim>\<open>malloc(n)\<close>: \<open>n\<close> bytes of undetermined content, which the collaborator record supplies.\<close>

definition malloc :: "liquid \<Rightarrow> nat \<Rightarrow> byte list" where
  "malloc L n = map (uninit L) [0..<n]"

lemma unat_word_succ: "(i :: 'a::len word) < n \<Longrightarrow> unat (i + 1) = Suc (unat i)"
  by unat_arith

lemma unat_word_pred: "(0 :: 'a::len word) < i \<Longrightarrow> Suc (unat (i - 1)) = unat i"
  by unat_arith

subsection \<open>Construction\<close>

text \<open>
  The loop of \<^verbatim>\<open>packetizer_create\<close> that fills \<open>plan[i]\<close> for \<open>i = 0, 1, ...\<close>: the
  stages built so far are the list \<open>pl\<close>, and stage \<open>i\<close> is appended to it.
\<close>

function create_plan_loop ::
  "liquid \<Rightarrow> cint \<Rightarrow> cint \<Rightarrow> uint \<Rightarrow> uint \<Rightarrow> uint \<Rightarrow> fecintlv_plan list \<Rightarrow> fecintlv_plan list" where
  "create_plan_loop L fec0 fec1 len i n0 pl =
     (if i < len then
        (let fs_i = (if i = 0 then fec0 else fec1);
             intlv_i = LIQUID_INTERLEAVER_BLOCK L;
             dec_i = n0;
             enc_i = fec_get_enc_msg_length L fs_i dec_i;
             stage = \<lparr> dec_msg_len = dec_i, enc_msg_len = enc_i,
                       fs = fs_i, f = Fec fs_i,
                       intlv_scheme = intlv_i, q = Interleaver enc_i intlv_i \<rparr>
         in create_plan_loop L fec0 fec1 len (i + 1) enc_i (pl @ [stage]))
      else pl)"
  by pat_completeness auto
termination
  by (relation "measure (\<lambda>(L, fec0, fec1, len, i, n0, pl). unat len - unat i)")
     (auto simp: unat_word_succ word_less_nat_alt)

declare create_plan_loop.simps [simp del]

definition packetizer_create :: "liquid \<Rightarrow> uint \<Rightarrow> cint \<Rightarrow> cint \<Rightarrow> cint \<Rightarrow> packetizer" where
  "packetizer_create L n crc fec0 fec1 =
     (let packet_len_p = packetizer_compute_enc_msg_len L n crc fec0 fec1;
          check_p = crc;
          crc_length_p = crc_get_length L check_p;
          buffer_len_p = packet_len_p;
          plan_len_p = 2;
          n0 = n + crc_length_p
      in \<lparr> msg_len = n, packet_len = packet_len_p, check = check_p,
           crc_length = crc_length_p,
           plan = create_plan_loop L fec0 fec1 plan_len_p 0 n0 [],
           plan_len = plan_len_p, buffer_len = buffer_len_p,
           buffer_0 = malloc L (unat buffer_len_p),
           buffer_1 = malloc L (unat buffer_len_p) \<rparr>)"

definition packetizer_get_dec_msg_len :: "packetizer \<Rightarrow> uint" where
  "packetizer_get_dec_msg_len p = msg_len p"

definition packetizer_get_enc_msg_len :: "packetizer \<Rightarrow> uint" where
  "packetizer_get_enc_msg_len p = packet_len p"

subsection \<open>Encoding\<close>

text \<open>
  The loop that appends the key: byte \<open>msg_len + crc_length - i - 1\<close> of buffer 0
  receives the low byte of the key, which is then shifted right by 8 bits.
\<close>

function encode_crc_loop :: "uint \<Rightarrow> uint \<Rightarrow> uint \<Rightarrow> uint \<Rightarrow> byte list \<Rightarrow> error + byte list" where
  "encode_crc_loop ml cl i key b0 =
     (if i < cl then
        (let idx = unat (ml + cl - i - 1) in
         if idx < length b0
         then encode_crc_loop ml cl (i + 1) (drop_bit 8 key) (b0[idx := ucast (key AND 0xff)])
         else Inl OutOfBounds)
      else Inr b0)"
  by pat_completeness auto
termination
  by (relation "measure (\<lambda>(ml, cl, i, key, b0). unat cl - unat i)")
     (auto simp: unat_word_succ word_less_nat_alt)

declare encode_crc_loop.simps [simp del]

text \<open>
  Modelled from the spec: the sources of \<^verbatim>\<open>fec_encode\<close> and \<^verbatim>\<open>interleaver_encode\<close>
  are missing; how many bytes each reads is what the specification says of the
  stages. One stage of the encoder: \<^verbatim>\<open>fec_encode\<close> reads \<open>dec_msg_len\<close> bytes of
  buffer 0 and writes its code word to buffer 1; \<^verbatim>\<open>interleaver_encode\<close> reads as
  many bytes of buffer 1 as the interleaver was made for and writes their permutation
  to buffer 0.
\<close>

definition encode_stage ::
  "liquid \<Rightarrow> fecintlv_plan \<Rightarrow> byte list \<times> byte list \<Rightarrow> error + (byte list \<times> byte list)" where
  "encode_stage L st bufs =
     (case bufs of (b0, b1) \<Rightarrow>
        bind_error (buf_read b0 (unat (dec_msg_len st))) (\<lambda>msg_dec.
        bind_error (buf_write b1 (fec_encode L (f st) (dec_msg_len st) msg_dec)) (\<lambda>b1'.
        bind_error (buf_read b1' (unat (intlv_len (q st)))) (\<lambda>msg_enc.
        bind_error (buf_write b0 (interleaver_encode L (q st) msg_enc)) (\<lambda>b0'.
        Inr (b0', b1'))))))"

function encode_plan_loop ::
  "liquid \<Rightarrow> fecintlv_plan list \<Rightarrow> uint \<Rightarrow> uint \<Rightarrow> byte list \<times> byte list
     \<Rightarrow> error + (byte list \<times> byte list)" where
  "encode_plan_loop L pl len i bufs =
     (if i < len then
        (if unat i < length pl then
           (case encode_stage L (pl ! unat i) bufs of
              Inl e \<Rightarrow> Inl e
            | Inr bufs' \<Rightarrow> encode_plan_loop L pl len (i + 1) bufs')
         else Inl OutOfBounds)
      else Inr bufs)"
  by pat_completeness auto
termination
  by (relation "measure (\<lambda>(L, pl, len, i, bufs). unat len - unat i)")
     (auto simp: unat_word_succ word_less_nat_alt)

declare encode_plan_loop.simps [simp del]

text \<open>
  \<^verbatim>\<open>packetizer_encode\<close>: the caller's message is the list \<open>msg\<close>, the result is the
  packetizer with its buffers as the call leaves them, and the \<open>packet_len\<close> bytes
  written to the caller's packet.
\<close>

definition packetizer_encode ::
  "liquid \<Rightarrow> packetizer \<Rightarrow> byte list \<Rightarrow> error + (packetizer \<times> byte list)" where
  "packetizer_encode L p msg =
     bind_error (buf_read msg (unat (msg_len p))) (\<lambda>m.
     bind_error (buf_write (buffer_0 p) m) (\<lambda>b0.
     bind_error (buf_read b0 (unat (msg_len p))) (\<lambda>m0.
     bind_error (encode_crc_loop (msg_len p) (crc_length p) 0
                   (crc_generate_key L (check p) m0) b0) (\<lambda>b0'.
     bind_error (encode_plan_loop L (plan p) (plan_len p) 0 (b0', buffer_1 p)) (\<lambda>bufs.
     bind_error (buf_read (fst bufs) (unat (packet_len p))) (\<lambda>pkt.
     Inr (p\<lparr>buffer_0 := fst bufs, buffer_1 := snd bufs\<rparr>, pkt)))))))"

subsection \<open>Decoding\<close>

text \<open>
  Modelled from the spec: the sources of \<^verbatim>\<open>interleaver_decode\<close> and \<^verbatim>\<open>fec_decode\<close>
  are missing; how many bytes each reads is what the specification says of the
  stages. One stage of the decoder: \<^verbatim>\<open>interleaver_decode\<close> reads as many bytes of
  buffer 0 as the interleaver was made for and writes them, permuted back, to buffer
  1; \<^verbatim>\<open>fec_decode\<close> reads the code word of a \<open>dec_msg_len\<close>-byte message (as long as
  \<^verbatim>\<open>fec_get_enc_msg_length\<close> says) from buffer 1 and writes the decoded message to
  buffer 0.
\<close>

definition decode_stage ::
  "liquid \<Rightarrow> fecintlv_plan \<Rightarrow> byte list \<times> byte list \<Rightarrow> error + (byte list \<times> byte list)" where
  "decode_stage L st bufs =
     (case bufs of (b0, b1) \<Rightarrow>
        bind_error (buf_read b0 (unat (intlv_len (q st)))) (\<lambda>msg_enc.
        bind_error (buf_write b1 (interleaver_decode L (q st) msg_enc)) (\<lambda>b1'.
        bind_error (buf_read b1'
            (unat (fec_get_enc_msg_length L (fec_scheme (f st)) (dec_msg_len st)))) (\<lambda>msg_enc'.
        bind_error (buf_write b0 (fec_decode L (f st) (dec_msg_len st) msg_enc')) (\<lambda>b0'.
        Inr (b0', b1'))))))"

function decode_plan_loop ::
  "liquid \<Rightarrow> fecintlv_plan list \<Rightarrow> uint \<Rightarrow> byte list \<times> byte list
     \<Rightarrow> error + (byte list \<times> byte list)" where
  "decode_plan_loop L pl i bufs =
     (if i > 0 then
        (if unat (i - 1) < length pl then
           (case decode_stage L (pl ! unat (i - 1)) bufs of
              Inl e \<Rightarrow> Inl e
            | Inr bufs' \<Rightarrow> decode_plan_loop L pl (i - 1) bufs')
         else Inl OutOfBounds)
      else Inr bufs)"
  by pat_completeness auto
termination
  by (relation "measure (\<lambda>(L, pl, i, bufs). unat i)")
     (auto simp: unat_word_pred [symmetric])

declare decode_plan_loop.simps [simp del]

text \<open>The loop that reassembles the key from the bytes after the message.\<close>

function decode_crc_loop :: "uint \<Rightarrow> uint \<Rightarrow> uint \<Rightarrow> uint \<Rightarrow> byte list \<Rightarrow> error + uint" where
  "decode_crc_loop ml cl i key b0 =
     (if i < cl then
        (let key' = push_bit 8 key;
             idx = unat (ml + i) in
         if idx < length b0
         then decode_crc_loop ml cl (i + 1) (key' OR ucast (b0 ! idx)) b0
         else Inl OutOfBounds)
      else Inr key)"
  by pat_completeness auto
termination
  by (relation "measure (\<lambda>(ml, cl, i, key, b0). unat cl - unat i)")
     (auto simp: unat_word_succ word_less_nat_alt)

declare decode_crc_loop.simps [simp del]

text \<open>
  \<^verbatim>\<open>packetizer_decode\<close>: the result is the packetizer with its buffers as the call
  leaves them, the \<open>msg_len\<close> bytes written to the caller's message, and the value
  returned, which is what \<^verbatim>\<open>crc_validate_message\<close> returns.
\<close>

definition packetizer_decode ::
  "liquid \<Rightarrow> packetizer \<Rightarrow> byte list \<Rightarrow> error + (packetizer \<times> byte list \<times> cint)" where
  "packetizer_decode L p pkt =
     bind_error (buf_read pkt (unat (packet_len p))) (\<lambda>c.
     bind_error (buf_write (buffer_0 p) c) (\<lambda>b0.
     bind_error (decode_plan_loop L (plan p) (plan_len p) (b0, buffer_1 p)) (\<lambda>bufs.
     bind_error (decode_crc_loop (msg_len p) (crc_length p) 0 0 (fst bufs)) (\<lambda>key.
     bind_error (buf_read (fst bufs) (unat (msg_len p))) (\<lambda>msg.
     Inr (p\<lparr>buffer_0 := fst bufs, buffer_1 := snd bufs\<rparr>, msg,
          crc_validate_message L (check p) msg key))))))"

definition packetizer_set_scheme :: "packetizer \<Rightarrow> cint \<Rightarrow> cint \<Rightarrow> packetizer" where
  "packetizer_set_scheme p fec0 fec1 = p"

text \<open>\<^verbatim>\<open>packetizer_realloc_buffers\<close>: the buffers keep their first bytes and get the new length.\<close>

definition realloc :: "liquid \<Rightarrow> byte list \<Rightarrow> nat \<Rightarrow> byte list" where
  "realloc L buf n = take n buf @ map (uninit L) [length buf..<n]"

definition packetizer_realloc_buffers :: "liquid \<Rightarrow> packetizer \<Rightarrow> uint \<Rightarrow> packetizer" where
  "packetizer_realloc_buffers L p len =
     p\<lparr> buffer_len := len,
        buffer_0 := realloc L (buffer_0 p) (unat len),
        buffer_1 := realloc L (buffer_1 p) (unat len) \<rparr>"

subsection \<open>Lifetime\<close>

text \<open>
  A \<^verbatim>\<open>packetizer\<close> in C is a pointer to the struct. Where the identity of the object
  matters, the objects live in a heap: a pointer is a number, 0 the null pointer, and
  cell \<open>a - 1\<close> of the heap holds the object at address \<open>a\<close>, or nothing once it is
  freed. An allocation takes a new cell; the codecs, interleavers and buffers an
  object owns are part of its cell and are released with it.
\<close>

type_synonym ptr = nat

type_synonym heap = "packetizer option list"

definition deref :: "heap \<Rightarrow> ptr \<Rightarrow> packetizer option" where
  "deref hp a = (if a = 0 \<or> length hp < a then None else hp ! (a - 1))"

definition heap_alloc :: "heap \<Rightarrow> packetizer \<Rightarrow> ptr \<times> heap" where
  "heap_alloc hp obj = (Suc (length hp), hp @ [Some obj])"

definition heap_free :: "heap \<Rightarrow> ptr \<Rightarrow> heap" where
  "heap_free hp a = (if a = 0 then hp else hp[a - 1 := None])"

text \<open>
  \<^verbatim>\<open>packetizer_destroy\<close> walks the \<open>plan_len\<close> stages of the plan and hands the
  codec and the interleaver of each to \<^verbatim>\<open>fec_destroy\<close> and \<^verbatim>\<open>interleaver_destroy\<close>,
  then frees the plan, the buffers and the object. In the heap all of these are one
  cell, which is released at the end; the loop can only fail, by leaving the plan.
\<close>

function destroy_plan_loop :: "fecintlv_plan list \<Rightarrow> uint \<Rightarrow> uint \<Rightarrow> error + unit" where
  "destroy_plan_loop pl len i =
     (if i < len then
        (if unat i < length pl then destroy_plan_loop pl len (i + 1)
         else Inl OutOfBounds)
      else Inr ())"
  by pat_completeness auto
termination
  by (relation "measure (\<lambda>(pl, len, i). unat len - unat i)")
     (auto simp: unat_word_succ word_less_nat_alt)

declare destroy_plan_loop.simps [simp del]

definition packetizer_destroy :: "heap \<Rightarrow> ptr \<Rightarrow> error + heap" where
  "packetizer_destroy hp a =
     (case deref hp a of
        None \<Rightarrow> Inl InvalidPointer
      | Some obj \<Rightarrow>
          bind_error (destroy_plan_loop (plan obj) (plan_len obj) 0) (\<lambda>_.
          Inr (heap_free hp a)))"

text \<open>
  \<^verbatim>\<open>packetizer_recreate\<close>. The four comparisons are evaluated from left to right, as
  \<^verbatim>\<open>&&\<close> does, so a stage of the plan is read only when the comparisons before it
  hold. The object that \<^verbatim>\<open>packetizer_create\<close> builds is put in a newly allocated
  cell.
\<close>

definition packetizer_recreate ::
  "liquid \<Rightarrow> heap \<Rightarrow> ptr \<Rightarrow> uint \<Rightarrow> cint \<Rightarrow> cint \<Rightarrow> cint \<Rightarrow> error + (ptr \<times> heap)" where
  "packetizer_recreate L hp a n crc fec0 fec1 =
     (if a = 0 then Inr (heap_alloc hp (packetizer_create L n crc fec0 fec1))
      else
        (case deref hp a of
           None \<Rightarrow> Inl InvalidPointer
         | Some obj \<Rightarrow>
             let rebuild =
               bind_error (packetizer_destroy hp a) (\<lambda>hp'.
                 Inr (heap_alloc hp' (packetizer_create L n crc fec0 fec1)))
             in
             if msg_len obj = n \<and> check obj = crc then
               (if length (plan obj) \<le> 0 then Inl OutOfBounds
                else if fs (plan obj ! 0) = fec0 then
                  (if length (plan obj) \<le> 1 then Inl OutOfBounds
                   else if fs (plan obj ! 1) = fec1 then Inr (a, hp)
                   else rebuild)
                else rebuild)
             else rebuild))"

section \<open>The half-band resampler\<close>

text \<open>
  \<^verbatim>\<open>resamp2.c\<close> is instantiated by macros for several sample types. A C \<^verbatim>\<open>float\<close> is
  a finite (rational) value, an infinity or a NaN; \<open>flt_less\<close> is its comparison
  \<^verbatim>\<open><\<close>, false whenever a NaN is compared.
\<close>

datatype cfloat = NaN | NegInf | Finite rat | PosInf

fun flt_less :: "cfloat \<Rightarrow> cfloat \<Rightarrow> bool" where
  "flt_less NaN y = False"
| "flt_less x NaN = False"
| "flt_less x NegInf = False"
| "flt_less NegInf y = True"
| "flt_less PosInf y = False"
| "flt_less (Finite a) PosInf = True"
| "flt_less (Finite a) (Finite b) = (a < b)"

text \<open>
  What the file takes from outside, as parameters: \<^verbatim>\<open>kaiser_beta_As\<close>; the value that
  the floating-point expression of the design loop (\<^verbatim>\<open>sincf\<close>, \<^verbatim>\<open>kaiser\<close>, \<^verbatim>\<open>cosf\<close>
  and their product) gives for tap \<open>i\<close> of a prototype of \<open>h_len\<close> taps; and the window
  type \<open>'w\<close> with \<^verbatim>\<open>WINDOW(_create)\<close> and \<^verbatim>\<open>WINDOW(_clear)\<close>. The coefficient type
  \<^verbatim>\<open>TC\<close> is \<open>'c\<close>.
\<close>

record ('c, 'w) dsp =
  kaiser_beta_As :: "cfloat \<Rightarrow> cfloat"
  prototype :: "uint \<Rightarrow> uint \<Rightarrow> cfloat \<Rightarrow> cfloat \<Rightarrow> 'c"
  window_create :: "uint \<Rightarrow> 'w"
  window_clear :: "'w \<Rightarrow> 'w"

record ('c, 'w) resamp2 =
  h :: "'c option list"
  m :: uint
  h_len :: uint
  fc :: cfloat
  As :: cfloat
  h1 :: "'c option list"
  h1_len :: uint
  w0 :: 'w
  w1 :: 'w

text \<open>
  \<^verbatim>\<open>exit(1)\<close> after a message on \<^verbatim>\<open>stderr\<close> is the result \<open>Exit 1\<close> with that message
  (the format string, for the message that prints \<open>fc\<close>). A cell of an allocated array
  is \<open>None\<close> until it is written.
\<close>

datatype stop = Exit int string | Fault error

definition malloc_cells :: "nat \<Rightarrow> 'c option list" where
  "malloc_cells k = replicate k None"

text \<open>The loop that designs the prototype: \<open>h[i]\<close> for \<open>i = 0, ..., h_len - 1\<close>.\<close>

function design_loop ::
  "('c, 'w) dsp \<Rightarrow> uint \<Rightarrow> cfloat \<Rightarrow> cfloat \<Rightarrow> uint \<Rightarrow> 'c option list \<Rightarrow> error + 'c option list" where
  "design_loop D len fc_f beta i hs =
     (if i < len then
        (if unat i < length hs
         then design_loop D len fc_f beta (i + 1) (hs[unat i := Some (prototype D i len fc_f beta)])
         else Inl OutOfBounds)
      else Inr hs)"
  by pat_completeness auto
termination
  by (relation "measure (\<lambda>(D, len, fc_f, beta, i, hs). unat len - unat i)")
     (auto simp: unat_word_succ word_less_nat_alt)

declare design_loop.simps [simp del]

text \<open>
  The loop that takes every second tap, in reverse: \<open>h1[j++] = h[h_len - i - 1]\<close> for
  \<open>i = 1, 3, 5, ...\<close> below \<open>h_len\<close>. With \<open>i + 2\<close> wrapping around nothing bounds its
  iterations for arbitrary arguments, so it is a partial function.
\<close>

partial_function (option) resample_loop ::
  "uint \<Rightarrow> 'c option list \<Rightarrow> uint \<Rightarrow> uint \<Rightarrow> 'c option list \<Rightarrow> (error + 'c option list) option" where
  "resample_loop len hs i j hs1 =
     (if i < len then
        (if unat j < length hs1 \<and> unat (len - i - 1) < length hs
         then resample_loop len hs (i + 2) (j + 1) (hs1[unat j := hs ! unat (len - i - 1)])
         else Some (Inl OutOfBounds))
      else Some (Inr hs1))"

text \<open>
  \<^verbatim>\<open>RESAMP2(_create)\<close>: \<open>None\<close> is a call that does not return, \<open>Inl\<close> the end of the
  process or an access outside an array.
\<close>

definition resamp2_create ::
  "('c, 'w) dsp \<Rightarrow> uint \<Rightarrow> cfloat \<Rightarrow> cfloat \<Rightarrow> (stop + ('c, 'w) resamp2) option" where
  "resamp2_create D m_arg fc_arg As_arg =
     (if m_arg < 2 then
        Some (Inl (Exit 1
          ''error: resamp2_xxxt_create(), filter semi-length must be at least 2''))
      else if flt_less fc_arg (Finite (- 1 / 2)) \<or> flt_less (Finite (1 / 2)) fc_arg then
        Some (Inl (Exit 1 ''error: resamp2_xxxt_create(), fc (%12.4e) must be in (-1,1)''))
      else
        (let h_len_f = 4 * m_arg + 1;
             h1_len_f = 2 * m_arg;
             beta = kaiser_beta_As D As_arg
         in case design_loop D h_len_f fc_arg beta 0 (malloc_cells (unat h_len_f)) of
              Inl e \<Rightarrow> Some (Inl (Fault e))
            | Inr hs \<Rightarrow>
               (case resample_loop h_len_f hs 1 0 (malloc_cells (unat h1_len_f)) of
                  None \<Rightarrow> None
                | Some (Inl e) \<Rightarrow> Some (Inl (Fault e))
                | Some (Inr hs1) \<Rightarrow>
                    Some (Inr \<lparr> h = hs, m = m_arg, h_len = h_len_f, fc = fc_arg, As = As_arg,
                                 h1 = hs1, h1_len = h1_len_f,
                                 w0 = window_clear D (window_create D (2 * m_arg)),
                                 w1 = window_clear D (window_create D (2 * m_arg)) \<rparr>))))"

section \<open>Valid configurations of the packetizer\<close>

text \<open>
  What the packetizer expects of its collaborators at one stage, with FEC scheme
  \<open>fs_i\<close> and decoded length \<open>k\<close>: the encoder writes as many bytes as
  \<^verbatim>\<open>fec_get_enc_msg_length\<close> announces, the decoder writes \<open>k\<close> bytes, and the
  interleaver made for the encoded length writes as many bytes as it reads.
\<close>

definition stage_fits :: "liquid \<Rightarrow> cint \<Rightarrow> uint \<Rightarrow> bool" where
  "stage_fits L fs_i k \<longleftrightarrow>
     (let e = fec_get_enc_msg_length L fs_i k;
          q_i = Interleaver e (LIQUID_INTERLEAVER_BLOCK L)
      in (\<forall>xs. length xs = unat k \<longrightarrow> length (fec_encode L (Fec fs_i) k xs) = unat e)
       \<and> (\<forall>ys. length ys = unat e \<longrightarrow> length (fec_decode L (Fec fs_i) k ys) = unat k)
       \<and> (\<forall>ys. length ys = unat e \<longrightarrow> length (interleaver_encode L q_i ys) = unat e)
       \<and> (\<forall>ys. length ys = unat e \<longrightarrow> length (interleaver_decode L q_i ys) = unat e))"

text \<open>
  A configuration is valid when the packet, hence each scratch buffer, holds the
  message with its key and the output of the first stage, and the collaborators keep
  to their lengths at both stages.
\<close>

definition valid_config :: "liquid \<Rightarrow> uint \<Rightarrow> cint \<Rightarrow> cint \<Rightarrow> cint \<Rightarrow> bool" where
  "valid_config L n crc fec0 fec1 \<longleftrightarrow>
     (let k0 = n + crc_get_length L crc;
          n0 = fec_get_enc_msg_length L fec0 k0;
          n1 = fec_get_enc_msg_length L fec1 n0
      in unat n + unat (crc_get_length L crc) \<le> unat n1 \<and> n0 \<le> n1
       \<and> stage_fits L fec0 k0 \<and> stage_fits L fec1 n0)"

text \<open>
  The collaborators lose nothing at a stage: decoding inverts encoding, and
  de-interleaving inverts interleaving.
\<close>

definition stage_inverts :: "liquid \<Rightarrow> cint \<Rightarrow> uint \<Rightarrow> bool" where
  "stage_inverts L fs_i k \<longleftrightarrow>
     (let e = fec_get_enc_msg_length L fs_i k;
          q_i = Interleaver e (LIQUID_INTERLEAVER_BLOCK L)
      in (\<forall>xs. length xs = unat k \<longrightarrow>
            fec_decode L (Fec fs_i) k (fec_encode L (Fec fs_i) k xs) = xs)
       \<and> (\<forall>ys. length ys = unat e \<longrightarrow>
            interleaver_decode L q_i (interleaver_encode L q_i ys) = ys))"

text \<open>
  The CRC scheme validates a message against the key it generates for it, and its
  keys have no bit beyond the \<open>crc_get_length\<close> bytes that are transmitted.
\<close>

definition crc_sound :: "liquid \<Rightarrow> cint \<Rightarrow> bool" where
  "crc_sound L crc \<longleftrightarrow>
     (\<forall>xs. crc_validate_message L crc xs (crc_generate_key L crc xs) \<noteq> 0
         \<and> take_bit (8 * unat (crc_get_length L crc)) (crc_generate_key L crc xs)
             = crc_generate_key L crc xs)"

definition lossless :: "liquid \<Rightarrow> uint \<Rightarrow> cint \<Rightarrow> cint \<Rightarrow> cint \<Rightarrow> bool" where
  "lossless L n crc fec0 fec1 \<longleftrightarrow>
     (let k0 = n + crc_get_length L crc;
          n0 = fec_get_enc_msg_length L fec0 k0
      in crc_sound L crc \<and> stage_inverts L fec0 k0 \<and> stage_inverts L fec1 n0)"

text \<open>
  The packetizers that exist for a configuration: the fields and the plan are those
  that \<^verbatim>\<open>packetizer_create\<close> builds, and the scratch buffers, whatever they hold after
  earlier calls, have the length allocated for them.
\<close>

definition constructed :: "liquid \<Rightarrow> uint \<Rightarrow> cint \<Rightarrow> cint \<Rightarrow> cint \<Rightarrow> packetizer \<Rightarrow> bool" where
  "constructed L n crc fec0 fec1 p \<longleftrightarrow>
     (let c = packetizer_create L n crc fec0 fec1
      in msg_len p = msg_len c \<and> packet_len p = packet_len c \<and> check p = check c
       \<and> crc_length p = crc_length c \<and> plan p = plan c \<and> plan_len p = plan_len c
       \<and> buffer_len p = buffer_len c
       \<and> length (buffer_0 p) = unat (buffer_len p)
       \<and> length (buffer_1 p) = unat (buffer_len p))"

text \<open>
  What a stage computes on the data it reads: on encoding the interleaved code word,
  on decoding the decoded de-interleaved block.
\<close>

definition stage_encode :: "liquid \<Rightarrow> fecintlv_plan \<Rightarrow> byte list \<Rightarrow> byte list" where
  "stage_encode L st x = interleaver_encode L (q st) (fec_encode L (f st) (dec_msg_len st) x)"

definition stage_decode :: "liquid \<Rightarrow> fecintlv_plan \<Rightarrow> byte list \<Rightarrow> byte list" where
  "stage_decode L st y = fec_decode L (f st) (dec_msg_len st) (interleaver_decode L (q st) y)"

section \<open>The scenario of the specification\<close>

text \<open>
  Collaborators for the concrete scenario: every CRC scheme has a key of 2 bytes (the
  sum of the message bytes, modulo \<open>2^16\<close>); FEC scheme 0 doubles the length (the
  message twice), every other scheme adds 4 bytes (four zero bytes appended); the
  interleaver reverses its block.
\<close>

definition scenario :: liquid where
  "scenario = \<lparr>
     crc_get_length = (\<lambda>_. 2),
     crc_generate_key = (\<lambda>_ xs. take_bit 16 (sum_list (map ucast xs))),
     crc_validate_message =
       (\<lambda>_ xs key. if take_bit 16 (sum_list (map ucast xs)) = key then 1 else 0),
     fec_get_enc_msg_length = (\<lambda>fs_i k. if fs_i = 0 then k * 2 else k + 4),
     fec_encode =
       (\<lambda>c n xs. if fec_scheme c = 0 then xs @ xs else xs @ [0, 0, 0, 0]),
     fec_decode = (\<lambda>c n xs. take (unat n) xs),
     interleaver_encode = (\<lambda>_ xs. rev xs),
     interleaver_decode = (\<lambda>_ xs. rev xs),
     LIQUID_INTERLEAVER_BLOCK = 0,
     uninit = (\<lambda>_. 0) \<rparr>"


text \<open>A heap that holds one packetizer of the scenario, at address 1.\<close>

definition scenario_heap :: heap where
  "scenario_heap = [Some (packetizer_create scenario 8 0 0 1)]"

section \<open>Properties of the length calculator\<close>

lemma scenario_enc_msg_len: "packetizer_compute_enc_msg_len scenario n 0 0 1 = n + n + 8"
  by (simp add: packetizer_compute_enc_msg_len_def scenario_def)

text \<open>
  C3. The encoded length is the outer FEC's forward length of the inner FEC's forward
  length of the uncoded length plus the CRC's overhead (in 32-bit unsigned arithmetic).
  With a 2-byte CRC, an inner FEC of length \<open>len * 2\<close> and an outer FEC of length
  \<open>len + 4\<close>, 8 bytes encode to 24; and for the empty message the result is the
  encoded length of the CRC alone.
\<close>

theorem enc_msg_len_formula:
  "packetizer_compute_enc_msg_len L n crc fec0 fec1 =
     fec_get_enc_msg_length L fec1
       (fec_get_enc_msg_length L fec0 (n + crc_get_length L crc))
   \<and> (crc_get_length L crc = 2
        \<and> (\<forall>k. fec_get_enc_msg_length L fec0 k = k * 2)
        \<and> (\<forall>k. fec_get_enc_msg_length L fec1 k = k + 4)
      \<longrightarrow> packetizer_compute_enc_msg_len L 8 crc fec0 fec1 = 24)
   \<and> packetizer_compute_enc_msg_len L 0 crc fec0 fec1 =
     fec_get_enc_msg_length L fec1 (fec_get_enc_msg_length L fec0 (crc_get_length L crc))"
  by (simp add: packetizer_compute_enc_msg_len_def)

theorem enc_msg_len_formula_witness:
  "packetizer_compute_enc_msg_len scenario 8 0 0 1 = 24
   \<and> packetizer_compute_enc_msg_len scenario 0 0 0 1 = 8"
proof -
  have c: "crc_get_length scenario 0 = 2" by (simp add: scenario_def)
  have i: "\<forall>k. fec_get_enc_msg_length scenario 0 k = k * 2" by (simp add: scenario_def)
  have o: "\<forall>k. fec_get_enc_msg_length scenario 1 k = k + 4" by (simp add: scenario_def)
  show ?thesis
    using enc_msg_len_formula [of scenario 8 0 0 1] c i o by simp
qed

text \<open>
  The search of \<^verbatim>\<open>packetizer_compute_dec_msg_len\<close> started at \<open>n\<close> returns the first
  length from \<open>n\<close> on whose encoded length reaches the target.
\<close>

lemma dec_msg_len_loop_finds:
  assumes "k \<le> packetizer_compute_enc_msg_len L r crc fec0 fec1"
    and "\<forall>m. n \<le> m \<and> m < r \<longrightarrow> packetizer_compute_enc_msg_len L m crc fec0 fec1 < k"
    and "n \<le> r" and "k_hat < k"
  shows "dec_msg_len_loop L k crc fec0 fec1 n k_hat = Some r"
  using assms
proof (induction "unat r - unat n" arbitrary: n k_hat)
  case 0
  then have "n = r" by (simp add: word_le_nat_alt word_unat_eq_iff)
  with 0 show ?case
    by (subst dec_msg_len_loop.simps) (auto simp: Let_def)
next
  case (Suc d)
  then have lt: "n < r" by (simp add: word_less_nat_alt)
  then have small: "packetizer_compute_enc_msg_len L n crc fec0 fec1 < k"
    using Suc.prems(2) by simp
  have s: "unat (n + 1) = Suc (unat n)" using lt by (rule unat_word_succ)
  have le: "n + 1 \<le> r" using lt by (rule inc_le)
  have d: "d = unat r - unat (n + 1)" using Suc.hyps(2) s by simp
  have nle: "n \<le> n + 1" using s by (simp add: word_le_nat_alt)
  have rest: "\<forall>m. n + 1 \<le> m \<and> m < r \<longrightarrow> packetizer_compute_enc_msg_len L m crc fec0 fec1 < k"
    using Suc.prems(2) nle by (meson order_trans)
  have "dec_msg_len_loop L k crc fec0 fec1 (n + 1)
          (packetizer_compute_enc_msg_len L n crc fec0 fec1) = Some r"
    by (rule Suc.hyps(1) [OF d Suc.prems(1) rest le small])
  with small Suc.prems(4) show ?case
    by (subst dec_msg_len_loop.simps) (auto simp: Let_def)
qed

text \<open>A search that returns while the target is ahead has met a length that reaches it.\<close>

lemma dec_msg_len_loop_returns:
  assumes "dec_msg_len_loop L k crc fec0 fec1 n k_hat = Some y"
  shows "\<not> k_hat < k \<or> (\<exists>m. k \<le> packetizer_compute_enc_msg_len L m crc fec0 fec1)"
  by (rule dec_msg_len_loop.raw_induct
        [where P = "\<lambda>L k crc fec0 fec1 n k_hat y.
           \<not> k_hat < k \<or> (\<exists>m. k \<le> packetizer_compute_enc_msg_len L m crc fec0 fec1)",
         OF _ assms])
     (auto simp: Let_def split: if_splits intro: order_less_imp_le)

text \<open>
  When every encoded length is below the target, the search never returns: \<open>n_hat\<close>
  wraps around and the loop goes on.
\<close>

lemma dec_msg_len_diverges:
  assumes "\<forall>m. packetizer_compute_enc_msg_len L m crc fec0 fec1 < k"
  shows "packetizer_compute_dec_msg_len L k crc fec0 fec1 = None"
proof (cases "packetizer_compute_dec_msg_len L k crc fec0 fec1")
  case None
  then show ?thesis .
next
  case (Some y)
  then have "\<not> 0 < k \<or> (\<exists>m. k \<le> packetizer_compute_enc_msg_len L m crc fec0 fec1)"
    unfolding packetizer_compute_dec_msg_len_def by (rule dec_msg_len_loop_returns)
  moreover have "0 < k"
    using assms [rule_format, of 0] by (auto simp: word_neq_0_conv [symmetric])
  ultimately show ?thesis using assms by (auto simp: not_le [symmetric])
qed

text \<open>
  C2, as the specification states it, fails: for the target 23 in the scenario the
  function returns 8, whose encoded length 24 exceeds the target, while 7 (encoded
  length 22) is the largest length that fits.
\<close>

theorem dec_msg_len_overshoots:
  "packetizer_compute_dec_msg_len scenario 23 0 0 1 = Some 8
   \<and> \<not> packetizer_compute_enc_msg_len scenario 8 0 0 1 \<le> 23
   \<and> packetizer_compute_enc_msg_len scenario 7 0 0 1 \<le> 23"
  by (simp add: packetizer_compute_dec_msg_len_def dec_msg_len_loop.simps
      scenario_enc_msg_len)

text \<open>
  C2, amended. \<^verbatim>\<open>packetizer_compute_dec_msg_len\<close> returns the smallest uncoded length
  whose encoded length reaches or exceeds the target, whenever there is one. So it
  returns zero for a target that the encoded length of the empty message already
  reaches (the target zero among them), and in the scenario 8 for the target 24 and
  8 again for the target 23.
\<close>

theorem dec_msg_len_least:
  assumes "k \<le> packetizer_compute_enc_msg_len L r crc fec0 fec1"
    and "\<forall>m<r. packetizer_compute_enc_msg_len L m crc fec0 fec1 < k"
  shows "packetizer_compute_dec_msg_len L k crc fec0 fec1 = Some r"
proof (cases "k = 0")
  case True
  have "r = 0"
  proof (rule ccontr)
    assume "r \<noteq> 0"
    then have "0 < r" by (simp add: word_neq_0_conv)
    with assms(2) True show False by auto
  qed
  with True show ?thesis
    by (simp add: packetizer_compute_dec_msg_len_def dec_msg_len_loop.simps)
next
  case False
  then have "0 < k" by (simp add: word_neq_0_conv)
  then show ?thesis
    unfolding packetizer_compute_dec_msg_len_def
    using assms by (intro dec_msg_len_loop_finds) auto
qed

theorem dec_msg_len_least_witness:
  "packetizer_compute_dec_msg_len scenario 23 0 0 1 = Some 8
   \<and> packetizer_compute_dec_msg_len scenario 24 0 0 1 = Some 8
   \<and> packetizer_compute_dec_msg_len scenario 5 0 0 1 = Some 0"
proof -
  have below: "\<forall>m<8. packetizer_compute_enc_msg_len scenario m 0 0 1 < 23"
  proof (intro allI impI)
    fix m :: uint
    assume "m < 8"
    then have m: "unat m < 8" by (simp add: word_less_nat_alt)
    then have "unat (m + m + 8) = unat m + unat m + 8"
      by (simp add: unat_word_ariths)
    with m show "packetizer_compute_enc_msg_len scenario m 0 0 1 < 23"
      by (simp add: scenario_enc_msg_len word_less_nat_alt)
  qed
  then have below': "\<forall>m<8. packetizer_compute_enc_msg_len scenario m 0 0 1 < 24"
    by (auto intro: order_less_trans)
  have a: "23 \<le> packetizer_compute_enc_msg_len scenario 8 0 0 1"
    and b: "24 \<le> packetizer_compute_enc_msg_len scenario 8 0 0 1"
    and c: "5 \<le> packetizer_compute_enc_msg_len scenario 0 0 0 1"
    by (simp_all add: scenario_enc_msg_len)
  have none: "\<forall>m<0. packetizer_compute_enc_msg_len scenario m 0 0 1 < 5"
    by simp
  show ?thesis
    using dec_msg_len_least [OF a below] dec_msg_len_least [OF b below']
      dec_msg_len_least [OF c none]
    by simp
qed


section \<open>Properties of construction\<close>

text \<open>
  C6. What \<^verbatim>\<open>packetizer_create\<close> builds: a plan of exactly two stages, the first for the
  inner and the second for the outer code; stage 0 decodes to the message and its key;
  the encoded length of each stage is the FEC's forward length of its decoded length;
  stage 1 starts from what stage 0 produces; the packet length is the encoded length
  of stage 1; and both scratch buffers have the packet length.
\<close>

theorem create_invariants:
  "(let p = packetizer_create L n crc fec0 fec1 in
      plan_len p = 2 \<and> length (plan p) = 2
    \<and> msg_len p = n \<and> check p = crc \<and> crc_length p = crc_get_length L crc
    \<and> fs (plan p ! 0) = fec0 \<and> fs (plan p ! 1) = fec1
    \<and> dec_msg_len (plan p ! 0) = msg_len p + crc_length p
    \<and> enc_msg_len (plan p ! 0) =
        fec_get_enc_msg_length L (fs (plan p ! 0)) (dec_msg_len (plan p ! 0))
    \<and> enc_msg_len (plan p ! 1) =
        fec_get_enc_msg_length L (fs (plan p ! 1)) (dec_msg_len (plan p ! 1))
    \<and> dec_msg_len (plan p ! 1) = enc_msg_len (plan p ! 0)
    \<and> packet_len p = enc_msg_len (plan p ! 1)
    \<and> buffer_len p = packet_len p
    \<and> length (buffer_0 p) = unat (packet_len p)
    \<and> length (buffer_1 p) = unat (packet_len p))"
  by (simp add: packetizer_create_def Let_def malloc_def packetizer_compute_enc_msg_len_def
      create_plan_loop.simps)

text \<open>
  C10. \<^verbatim>\<open>packetizer_set_scheme\<close> has an empty body: the packetizer is the same after
  the call, field by field, and encodes and decodes as before.
\<close>

theorem set_scheme_unchanged:
  "packetizer_set_scheme p fec0 fec1 = p
   \<and> packetizer_encode L (packetizer_set_scheme p fec0 fec1) msg = packetizer_encode L p msg
   \<and> packetizer_decode L (packetizer_set_scheme p fec0 fec1) pkt = packetizer_decode L p pkt"
  by (simp add: packetizer_set_scheme_def)

section \<open>The key in the buffer\<close>

text \<open>The byte stored is the low byte of the key; a word is its low byte under the rest.\<close>

lemma low_byte: "(ucast (key AND 0xff :: uint) :: byte) = ucast key"
proof -
  have "(0xff :: uint) = mask 8" by (simp add: mask_eq_exp_minus_1)
  moreover have "(ucast (key AND mask 8 :: uint) :: byte) = ucast key"
    by (rule bit_word_eqI) (auto simp: bit_simps)
  ultimately show ?thesis by simp
qed

lemma glue_byte: "push_bit 8 (drop_bit 8 (w :: uint)) OR ucast (ucast w :: byte) = w"
  by (rule bit_word_eqI) (auto simp: bit_simps)

text \<open>The two index expressions, where message and key do not wrap around.\<close>

lemma crc_index_enc:
  assumes "unat (ml :: uint) + unat cl < 2 ^ 32" and "i < cl"
  shows "unat (ml + cl - i - 1) = unat ml + unat cl - unat i - 1"
proof -
  have a: "unat (ml + cl) = unat ml + unat cl"
    using assms(1) by (simp add: unat_add_lem [THEN iffD1])
  have ui: "unat i < unat cl" using assms(2) by (simp add: word_less_nat_alt)
  have "i \<le> ml + cl" using a ui by (simp add: word_le_nat_alt)
  then have b: "unat (ml + cl - i) = unat ml + unat cl - unat i"
    using a by (simp add: unat_sub)
  then have "1 \<le> ml + cl - i" using ui by (simp add: word_le_nat_alt)
  then show ?thesis using b by (simp add: unat_sub)
qed

lemma crc_index_dec:
  assumes "unat (ml :: uint) + unat cl < 2 ^ 32" and "i < cl"
  shows "unat (ml + i) = unat ml + unat i"
proof -
  have "unat i < unat cl" using assms(2) by (simp add: word_less_nat_alt)
  then have "unat ml + unat i < 2 ^ LENGTH(32)" using assms(1) by simp
  then show ?thesis by (simp only: unat_add_lem [THEN iffD1])
qed

text \<open>
  The encoder's loop from iteration \<open>i\<close> on: it succeeds and stores the bytes of the
  key, least significant first, downwards from position \<open>msg_len + crc_length - i - 1\<close>.
\<close>

lemma encode_crc_loop_run:
  assumes "unat ml + unat cl \<le> length b0" and "unat ml + unat cl < 2 ^ 32" and "i \<le> cl"
  shows "\<exists>b'. encode_crc_loop ml cl i key b0 = Inr b' \<and> length b' = length b0 \<and>
     (\<forall>pos < length b0. b' ! pos =
        (if unat ml \<le> pos \<and> pos < unat ml + unat cl - unat i
         then ucast (drop_bit (8 * (unat ml + unat cl - unat i - 1 - pos)) key)
         else b0 ! pos))"
  using assms
proof (induction "unat cl - unat i" arbitrary: i key b0)
  case 0
  then have "i = cl" by (simp add: word_le_nat_alt word_unat_eq_iff)
  then show ?case by (subst encode_crc_loop.simps) auto
next
  case (Suc d)
  then have lt: "i < cl" by (simp add: word_less_nat_alt)
  define idx where "idx = unat ml + unat cl - unat i - 1"
  define top where "top = unat ml + unat cl - unat i"
  define top' where "top' = unat ml + unat cl - unat (i + 1)"
  have ui: "unat i < unat cl" using lt by (simp add: word_less_nat_alt)
  have s: "unat (i + 1) = Suc (unat i)" using lt by (rule unat_word_succ)
  have idx: "unat (ml + cl - i - 1) = idx"
    unfolding idx_def using Suc.prems(2) lt by (rule crc_index_enc)
  have tops: "top = Suc idx" "top' = idx" "unat ml \<le> idx"
    unfolding idx_def top_def top'_def using ui s by arith+
  have inb: "idx < length b0" unfolding idx_def using Suc.prems(1) ui by arith
  have d: "d = unat cl - unat (i + 1)" using Suc.hyps(2) s by simp
  have le: "i + 1 \<le> cl" using lt by (rule inc_le)
  have len: "unat ml + unat cl \<le> length (b0[idx := ucast key])" using Suc.prems(1) by simp
  obtain b' where run: "encode_crc_loop ml cl (i + 1) (drop_bit 8 key) (b0[idx := ucast key]) = Inr b'"
    and lb: "length b' = length (b0[idx := ucast key])"
    and nth: "\<forall>pos < length (b0[idx := ucast key]). b' ! pos =
        (if unat ml \<le> pos \<and> pos < top'
         then ucast (drop_bit (8 * (top' - 1 - pos)) (drop_bit 8 key))
         else b0[idx := ucast key] ! pos)"
    unfolding top'_def
    using Suc.hyps(1) [OF d len Suc.prems(2) le, of "drop_bit 8 key"] by blast
  have step: "encode_crc_loop ml cl i key b0 = Inr b'"
    using lt inb run by (subst encode_crc_loop.simps) (simp add: idx low_byte Let_def)
  have "b' ! pos =
        (if unat ml \<le> pos \<and> pos < top then ucast (drop_bit (8 * (top - 1 - pos)) key)
         else b0 ! pos)" if pos: "pos < length b0" for pos
  proof -
    have at: "b' ! pos =
        (if unat ml \<le> pos \<and> pos < idx
         then ucast (drop_bit (8 * (idx - 1 - pos)) (drop_bit 8 key))
         else b0[idx := ucast key] ! pos)"
      using nth [rule_format, of pos] pos tops by simp
    consider (below) "unat ml \<le> pos" "pos < idx" | (here) "pos = idx"
      | (off) "pos < unat ml \<or> idx < pos"
      by arith
    then show ?thesis
    proof cases
      case below
      then have "8 * (idx - 1 - pos) + 8 = 8 * (idx - pos)"
        by arith
      then have "drop_bit (8 * (idx - 1 - pos)) (drop_bit 8 key) = drop_bit (8 * (idx - pos)) key"
        by (simp only: drop_bit_drop_bit)
      then show ?thesis using at below tops by simp
    next
      case here
      then show ?thesis using at inb tops by simp
    next
      case off
      then show ?thesis using at tops by auto
    qed
  qed
  then have "\<forall>pos < length b0. b' ! pos =
        (if unat ml \<le> pos \<and> pos < unat ml + unat cl - unat i
         then ucast (drop_bit (8 * (unat ml + unat cl - unat i - 1 - pos)) key)
         else b0 ! pos)"
    unfolding top_def by blast
  with step lb show ?case by simp
qed

text \<open>
  The decoder's loop from iteration \<open>i\<close> on, over a buffer that holds the big-endian
  bytes of \<open>K\<close>, with the bytes before \<open>i\<close> already in the accumulator.
\<close>

lemma decode_crc_loop_run:
  assumes "unat ml + unat cl \<le> length b" and "unat ml + unat cl < 2 ^ 32" and "i \<le> cl"
    and "\<forall>j. unat i \<le> j \<and> j < unat cl \<longrightarrow> b ! (unat ml + j) = ucast (drop_bit (8 * (unat cl - 1 - j)) K)"
    and "key = drop_bit (8 * (unat cl - unat i)) K"
  shows "decode_crc_loop ml cl i key b = Inr K"
  using assms
proof (induction "unat cl - unat i" arbitrary: i key)
  case 0
  then have "i = cl" by (simp add: word_le_nat_alt word_unat_eq_iff)
  with 0 show ?case by (subst decode_crc_loop.simps) simp
next
  case (Suc d)
  then have lt: "i < cl" by (simp add: word_less_nat_alt)
  have ui: "unat i < unat cl" using lt by (simp add: word_less_nat_alt)
  have idx: "unat (ml + i) = unat ml + unat i"
    using Suc.prems(2) lt by (rule crc_index_dec)
  have inb: "unat ml + unat i < length b" using Suc.prems(1) ui by arith
  have s: "unat (i + 1) = Suc (unat i)" using lt by (rule unat_word_succ)
  have d: "d = unat cl - unat (i + 1)" using Suc.hyps(2) s by simp
  have le: "i + 1 \<le> cl" using lt by (rule inc_le)
  let ?w = "drop_bit (8 * (unat cl - 1 - unat i)) K"
  have byte: "b ! (unat ml + unat i) = ucast ?w"
    using Suc.prems(4) ui by simp
  have "8 * (unat cl - unat i) = 8 + 8 * (unat cl - 1 - unat i)" using ui by arith
  then have key: "key = drop_bit 8 ?w"
    using Suc.prems(5) by (simp add: drop_bit_drop_bit)
  have acc: "push_bit 8 key OR ucast (b ! (unat ml + unat i))
      = drop_bit (8 * (unat cl - unat (i + 1))) K"
    using glue_byte [of ?w] s by (simp add: key byte)
  have rest: "\<forall>j. unat (i + 1) \<le> j \<and> j < unat cl \<longrightarrow> b ! (unat ml + j) = ucast (drop_bit (8 * (unat cl - 1 - j)) K)"
    using Suc.prems(4) s by simp
  have "decode_crc_loop ml cl (i + 1) (push_bit 8 key OR ucast (b ! (unat ml + unat i))) b = Inr K"
    by (rule Suc.hyps(1) [OF d Suc.prems(1) Suc.prems(2) le rest acc])
  with lt inb show ?case
    by (subst decode_crc_loop.simps) (simp add: idx Let_def)
qed


text \<open>
  C7. The two key loops are inverse to each other, in big-endian order. For a key
  with no bit beyond its \<open>crc_length\<close> bytes and a buffer that holds the message and
  the key, the loop of \<^verbatim>\<open>packetizer_encode\<close> writes byte \<open>j\<close> of the key, counted
  from the most significant one, to position \<open>msg_len + j\<close>, leaves every other
  byte of the buffer as it was, and the loop of \<^verbatim>\<open>packetizer_decode\<close> over the same
  positions yields the key again.
\<close>

theorem crc_key_roundtrip:
  assumes "unat ml + unat cl \<le> length b0" and "length b0 < 2 ^ 32"
    and "take_bit (8 * unat cl) key = key"
  shows "\<exists>b0'. encode_crc_loop ml cl 0 key b0 = Inr b0' \<and> length b0' = length b0
     \<and> (\<forall>j < unat cl. b0' ! (unat ml + j) = ucast (drop_bit (8 * (unat cl - 1 - j)) key))
     \<and> (\<forall>pos < length b0. pos < unat ml \<or> unat ml + unat cl \<le> pos \<longrightarrow> b0' ! pos = b0 ! pos)
     \<and> decode_crc_loop ml cl 0 0 b0' = Inr key"
proof -
  have nowrap: "unat ml + unat cl < 2 ^ 32" using assms(1,2) by simp
  obtain b' where run: "encode_crc_loop ml cl 0 key b0 = Inr b'"
    and len: "length b' = length b0"
    and nth: "\<forall>pos < length b0. b' ! pos =
        (if unat ml \<le> pos \<and> pos < unat ml + unat cl - unat (0 :: uint)
         then ucast (drop_bit (8 * (unat ml + unat cl - unat (0 :: uint) - 1 - pos)) key)
         else b0 ! pos)"
    using encode_crc_loop_run [OF assms(1) nowrap, of 0 key] by auto
  have bytes: "b' ! (unat ml + j) = ucast (drop_bit (8 * (unat cl - 1 - j)) key)"
    if "j < unat cl" for j
  proof -
    have "unat ml + j < length b0" using that assms(1) by simp
    moreover have "unat ml + unat cl - 1 - (unat ml + j) = unat cl - 1 - j" by simp
    ultimately show ?thesis using nth [rule_format, of "unat ml + j"] that by simp
  qed
  have others: "b' ! pos = b0 ! pos"
    if "pos < length b0" "pos < unat ml \<or> unat ml + unat cl \<le> pos" for pos
    using nth [rule_format, of pos] that by auto
  have zero: "(0 :: uint) = drop_bit (8 * (unat cl - unat (0 :: uint))) key"
    using assms(3) by (simp add: take_bit_eq_self_iff_drop_bit_eq_0)
  have "decode_crc_loop ml cl 0 0 b' = Inr key"
    using assms(1) nowrap bytes zero
    by (intro decode_crc_loop_run) (simp_all add: len)
  with run len bytes others show ?thesis by blast
qed

theorem crc_key_roundtrip_witness:
  "encode_crc_loop 8 2 0 283 [1, 2, 3, 4, 5, 6, 7, 255, 0, 0, 0, 0]
     = Inr [1, 2, 3, 4, 5, 6, 7, 255, 1, 27, 0, 0]
   \<and> decode_crc_loop 8 2 0 0 [1, 2, 3, 4, 5, 6, 7, 255, 1, 27, 0, 0] = Inr 283"
proof -
  have a: "unat (8 :: uint) + unat (2 :: uint) \<le> length [1, 2, 3, 4, 5, 6, 7, 255, 0, 0, 0, 0 :: byte]"
    by simp
  have b: "length [1, 2, 3, 4, 5, 6, 7, 255, 0, 0, 0, 0 :: byte] < 2 ^ 32" by simp
  have c: "take_bit (8 * unat (2 :: uint)) (283 :: uint) = 283" by simp
  have e: "encode_crc_loop 8 2 0 283 [1, 2, 3, 4, 5, 6, 7, 255, 0, 0, 0, 0]
     = Inr [1, 2, 3, 4, 5, 6, 7, 255, 1, 27, 0, 0]"
    by code_simp
  from crc_key_roundtrip [OF a b c] e show ?thesis by auto
qed


section \<open>Running the pipeline\<close>

text \<open>
  Sequencing, and reads and writes that stay inside their buffer.
\<close>

lemma bind_error_Inr: "bind_error (Inr x) k = k x"
  by (simp add: bind_error_def)

lemma buf_read_ok: "n \<le> length buf \<Longrightarrow> buf_read buf n = Inr (take n buf)"
  by (simp add: buf_read_def)

lemma buf_write_ok:
  "length xs \<le> length buf \<Longrightarrow> buf_write buf xs = Inr (xs @ drop (length xs) buf)"
  by (simp add: buf_write_def)

text \<open>
  One encoder stage on two buffers of \<open>N\<close> bytes, when the decoded and the encoded
  block fit: it succeeds, keeps both lengths, and leaves the stage's code word at the
  start of buffer 0.
\<close>

lemma encode_stage_run:
  fixes L fs_i k
  defines "e \<equiv> fec_get_enc_msg_length L fs_i k"
  assumes fits: "stage_fits L fs_i k"
    and st: "dec_msg_len st = k" "f st = Fec fs_i"
      "q st = Interleaver e (LIQUID_INTERLEAVER_BLOCK L)"
    and len: "length b0 = N" "length b1 = N"
    and room: "unat k \<le> N" "unat e \<le> N"
  shows "\<exists>b0' b1'. encode_stage L st (b0, b1) = Inr (b0', b1')
     \<and> length b0' = N \<and> length b1' = N
     \<and> take (unat e) b0' = stage_encode L st (take (unat k) b0)"
proof -
  let ?x = "take (unat k) b0"
  let ?c = "fec_encode L (f st) k ?x"
  let ?b1 = "?c @ drop (length ?c) b1"
  let ?y = "interleaver_encode L (q st) ?c"
  let ?b0 = "?y @ drop (length ?y) b0"
  have lx: "length ?x = unat k" using len room by simp
  have lc: "length ?c = unat e"
    using fits lx st by (simp add: stage_fits_def Let_def e_def)
  have ly: "length ?y = unat e"
    using fits lc st by (simp add: stage_fits_def Let_def e_def)
  have r1: "buf_read b0 (unat k) = Inr ?x" using len room by (simp add: buf_read_ok)
  have w1: "buf_write b1 ?c = Inr ?b1" using lc len room by (simp add: buf_write_ok)
  have r2: "buf_read ?b1 (unat e) = Inr ?c" using lc by (simp add: buf_read_def)
  have w2: "buf_write b0 ?y = Inr ?b0" using ly len room by (simp add: buf_write_ok)
  have "encode_stage L st (b0, b1) = Inr (?b0, ?b1)"
    using r1 w1 r2 w2 by (simp add: encode_stage_def st bind_error_Inr)
  moreover have "length ?b0 = N" "length ?b1 = N" using lc ly len room by simp_all
  moreover have "take (unat e) ?b0 = stage_encode L st (take (unat k) b0)"
    using ly by (simp add: stage_encode_def st)
  ultimately show ?thesis by blast
qed

text \<open>
  One decoder stage, likewise: it leaves the stage's decoded block at the start of
  buffer 0.
\<close>

lemma decode_stage_run:
  fixes L fs_i k
  defines "e \<equiv> fec_get_enc_msg_length L fs_i k"
  assumes fits: "stage_fits L fs_i k"
    and st: "dec_msg_len st = k" "f st = Fec fs_i"
      "q st = Interleaver e (LIQUID_INTERLEAVER_BLOCK L)"
    and len: "length b0 = N" "length b1 = N"
    and room: "unat k \<le> N" "unat e \<le> N"
  shows "\<exists>b0' b1'. decode_stage L st (b0, b1) = Inr (b0', b1')
     \<and> length b0' = N \<and> length b1' = N
     \<and> take (unat k) b0' = stage_decode L st (take (unat e) b0)"
proof -
  let ?y = "take (unat e) b0"
  let ?c = "interleaver_decode L (q st) ?y"
  let ?b1 = "?c @ drop (length ?c) b1"
  let ?x = "fec_decode L (f st) k ?c"
  let ?b0 = "?x @ drop (length ?x) b0"
  have ly: "length ?y = unat e" using len room by simp
  have lc: "length ?c = unat e"
    using fits ly st by (simp add: stage_fits_def Let_def e_def)
  have lx: "length ?x = unat k"
    using fits lc st by (simp add: stage_fits_def Let_def e_def)
  have r1: "buf_read b0 (unat e) = Inr ?y" using len room by (simp add: buf_read_ok)
  have w1: "buf_write b1 ?c = Inr ?b1" using lc len room by (simp add: buf_write_ok)
  have r2: "buf_read ?b1 (unat e) = Inr ?c" using lc by (simp add: buf_read_def)
  have w2: "buf_write b0 ?x = Inr ?b0" using lx len room by (simp add: buf_write_ok)
  have "decode_stage L st (b0, b1) = Inr (?b0, ?b1)"
    using r1 w1 r2 w2 by (simp add: decode_stage_def st bind_error_Inr e_def [symmetric])
  moreover have "length ?b0 = N" "length ?b1 = N" using lc lx len room by simp_all
  moreover have "take (unat k) ?b0 = stage_decode L st (take (unat e) b0)"
    using lx by (simp add: stage_decode_def st)
  ultimately show ?thesis by blast
qed


text \<open>
  Over a plan of two stages, the loops run stage 0 then 1, and stage 1 then 0.
\<close>

lemma encode_plan_loop_two:
  "encode_plan_loop L [s0, s1] 2 0 bufs =
     (case encode_stage L s0 bufs of Inl e \<Rightarrow> Inl e | Inr bufs' \<Rightarrow> encode_stage L s1 bufs')"
  by (simp add: encode_plan_loop.simps split: sum.splits)

lemma decode_plan_loop_two:
  "decode_plan_loop L [s0, s1] 2 bufs =
     (case decode_stage L s1 bufs of Inl e \<Rightarrow> Inl e | Inr bufs' \<Rightarrow> decode_stage L s0 bufs')"
  by (simp add: decode_plan_loop.simps split: sum.splits)

text \<open>
  The plan and the fields that \<^verbatim>\<open>packetizer_create\<close> builds.
\<close>

lemma plan_create:
  "plan (packetizer_create L n crc fec0 fec1) =
     [\<lparr> dec_msg_len = n + crc_get_length L crc,
         enc_msg_len = fec_get_enc_msg_length L fec0 (n + crc_get_length L crc),
         fs = fec0, f = Fec fec0, intlv_scheme = LIQUID_INTERLEAVER_BLOCK L,
         q = Interleaver (fec_get_enc_msg_length L fec0 (n + crc_get_length L crc))
               (LIQUID_INTERLEAVER_BLOCK L) \<rparr>,
      \<lparr> dec_msg_len = fec_get_enc_msg_length L fec0 (n + crc_get_length L crc),
         enc_msg_len = packetizer_compute_enc_msg_len L n crc fec0 fec1,
         fs = fec1, f = Fec fec1, intlv_scheme = LIQUID_INTERLEAVER_BLOCK L,
         q = Interleaver (packetizer_compute_enc_msg_len L n crc fec0 fec1)
               (LIQUID_INTERLEAVER_BLOCK L) \<rparr>]"
  by (simp add: packetizer_create_def Let_def create_plan_loop.simps
      packetizer_compute_enc_msg_len_def)

lemma fields_create:
  "msg_len (packetizer_create L n crc fec0 fec1) = n"
  "packet_len (packetizer_create L n crc fec0 fec1) = packetizer_compute_enc_msg_len L n crc fec0 fec1"
  "check (packetizer_create L n crc fec0 fec1) = crc"
  "crc_length (packetizer_create L n crc fec0 fec1) = crc_get_length L crc"
  "plan_len (packetizer_create L n crc fec0 fec1) = 2"
  "buffer_len (packetizer_create L n crc fec0 fec1) = packetizer_compute_enc_msg_len L n crc fec0 fec1"
  "length (buffer_0 (packetizer_create L n crc fec0 fec1))
     = unat (packetizer_compute_enc_msg_len L n crc fec0 fec1)"
  "length (buffer_1 (packetizer_create L n crc fec0 fec1))
     = unat (packetizer_compute_enc_msg_len L n crc fec0 fec1)"
  by (simp_all add: packetizer_create_def Let_def malloc_def)

lemma constructed_create: "constructed L n crc fec0 fec1 (packetizer_create L n crc fec0 fec1)"
  by (simp add: constructed_def Let_def fields_create)

lemma constructed_buffers:
  assumes "constructed L n crc fec0 fec1 p"
    and "length b0 = unat (packet_len p)" and "length b1 = unat (packet_len p)"
  shows "constructed L n crc fec0 fec1 (p\<lparr>buffer_0 := b0, buffer_1 := b1\<rparr>)"
  using assms by (simp add: constructed_def Let_def fields_create)


text \<open>
  The encoder's loop over the plan of a valid configuration: buffer 0 ends as the
  two stages applied to the message and key that it held.
\<close>

lemma encode_plan_run:
  fixes L n crc fec0 fec1
  defines "c \<equiv> packetizer_create L n crc fec0 fec1"
  assumes valid: "valid_config L n crc fec0 fec1"
    and len: "length b0 = unat (packet_len c)" "length b1 = unat (packet_len c)"
  shows "\<exists>b0' b1'. encode_plan_loop L (plan c) (plan_len c) 0 (b0, b1) = Inr (b0', b1')
     \<and> length b0' = unat (packet_len c) \<and> length b1' = unat (packet_len c)
     \<and> b0' = stage_encode L (plan c ! 1)
               (stage_encode L (plan c ! 0) (take (unat (n + crc_get_length L crc)) b0))"
proof -
  define k0 where "k0 = n + crc_get_length L crc"
  define n0 where "n0 = fec_get_enc_msg_length L fec0 k0"
  define n1 where "n1 = fec_get_enc_msg_length L fec1 n0"
  define s0 where "s0 = plan c ! 0"
  define s1 where "s1 = plan c ! 1"
  have pl: "plan c = [s0, s1]" by (simp add: s0_def s1_def c_def plan_create)
  have pk: "packet_len c = n1"
    by (simp add: c_def fields_create packetizer_compute_enc_msg_len_def n1_def n0_def k0_def)
  have s0: "dec_msg_len s0 = k0" "f s0 = Fec fec0"
      "q s0 = Interleaver (fec_get_enc_msg_length L fec0 k0) (LIQUID_INTERLEAVER_BLOCK L)"
    by (simp_all add: s0_def c_def plan_create k0_def)
  have s1: "dec_msg_len s1 = n0" "f s1 = Fec fec1"
      "q s1 = Interleaver (fec_get_enc_msg_length L fec1 n0) (LIQUID_INTERLEAVER_BLOCK L)"
    by (simp_all add: s1_def c_def plan_create k0_def n0_def packetizer_compute_enc_msg_len_def)
  have v: "unat k0 \<le> unat n1" "unat n0 \<le> unat n1" "stage_fits L fec0 k0" "stage_fits L fec1 n0"
  proof -
    have a: "unat n + unat (crc_get_length L crc) \<le> unat n1" and b: "n0 \<le> n1"
      and "stage_fits L fec0 k0" and "stage_fits L fec1 n0"
      using valid by (simp_all add: valid_config_def Let_def k0_def n0_def n1_def)
    then show "stage_fits L fec0 k0" and "stage_fits L fec1 n0" by simp_all
    have "unat (n + crc_get_length L crc) \<le> unat n + unat (crc_get_length L crc)"
      by (simp add: unat_word_ariths)
    with a show "unat k0 \<le> unat n1" by (simp add: k0_def)
    from b show "unat n0 \<le> unat n1" by (simp add: word_le_nat_alt)
  qed
  obtain a0 a1 where st0: "encode_stage L s0 (b0, b1) = Inr (a0, a1)"
    and la: "length a0 = unat n1" "length a1 = unat n1"
    and ta: "take (unat n0) a0 = stage_encode L s0 (take (unat k0) b0)"
    using encode_stage_run [OF v(3) s0, of b0 "unat n1" b1] len v(1,2) pk
    unfolding n0_def [symmetric] by auto
  obtain c0 c1 where st1: "encode_stage L s1 (a0, a1) = Inr (c0, c1)"
    and lc: "length c0 = unat n1" "length c1 = unat n1"
    and tc: "take (unat n1) c0 = stage_encode L s1 (take (unat n0) a0)"
    using encode_stage_run [OF v(4) s1, of a0 "unat n1" a1] la v(2)
    unfolding n1_def [symmetric] by auto
  have pll: "plan_len c = 2" by (simp add: c_def fields_create)
  have "encode_plan_loop L (plan c) (plan_len c) 0 (b0, b1) = Inr (c0, c1)"
    by (simp add: pl pll encode_plan_loop_two st0 st1)
  moreover have "c0 = stage_encode L s1 (stage_encode L s0 (take (unat k0) b0))"
    using tc lc ta by simp
  ultimately show ?thesis
    using lc by (simp add: pk s0_def s1_def k0_def)
qed

text \<open>
  The decoder's loop over the plan of a valid configuration: buffer 0 starts with
  the two stages undone, last stage first.
\<close>

lemma decode_plan_run:
  fixes L n crc fec0 fec1
  defines "c \<equiv> packetizer_create L n crc fec0 fec1"
  assumes valid: "valid_config L n crc fec0 fec1"
    and len: "length b0 = unat (packet_len c)" "length b1 = unat (packet_len c)"
  shows "\<exists>b0' b1'. decode_plan_loop L (plan c) (plan_len c) (b0, b1) = Inr (b0', b1')
     \<and> length b0' = unat (packet_len c) \<and> length b1' = unat (packet_len c)
     \<and> take (unat (n + crc_get_length L crc)) b0'
         = stage_decode L (plan c ! 0) (stage_decode L (plan c ! 1) b0)"
proof -
  define k0 where "k0 = n + crc_get_length L crc"
  define n0 where "n0 = fec_get_enc_msg_length L fec0 k0"
  define n1 where "n1 = fec_get_enc_msg_length L fec1 n0"
  define s0 where "s0 = plan c ! 0"
  define s1 where "s1 = plan c ! 1"
  have pl: "plan c = [s0, s1]" by (simp add: s0_def s1_def c_def plan_create)
  have pk: "packet_len c = n1"
    by (simp add: c_def fields_create packetizer_compute_enc_msg_len_def n1_def n0_def k0_def)
  have s0: "dec_msg_len s0 = k0" "f s0 = Fec fec0"
      "q s0 = Interleaver (fec_get_enc_msg_length L fec0 k0) (LIQUID_INTERLEAVER_BLOCK L)"
    by (simp_all add: s0_def c_def plan_create k0_def)
  have s1: "dec_msg_len s1 = n0" "f s1 = Fec fec1"
      "q s1 = Interleaver (fec_get_enc_msg_length L fec1 n0) (LIQUID_INTERLEAVER_BLOCK L)"
    by (simp_all add: s1_def c_def plan_create k0_def n0_def packetizer_compute_enc_msg_len_def)
  have v: "unat k0 \<le> unat n1" "unat n0 \<le> unat n1" "stage_fits L fec0 k0" "stage_fits L fec1 n0"
  proof -
    have a: "unat n + unat (crc_get_length L crc) \<le> unat n1" and b: "n0 \<le> n1"
      and "stage_fits L fec0 k0" and "stage_fits L fec1 n0"
      using valid by (simp_all add: valid_config_def Let_def k0_def n0_def n1_def)
    then show "stage_fits L fec0 k0" and "stage_fits L fec1 n0" by simp_all
    have "unat (n + crc_get_length L crc) \<le> unat n + unat (crc_get_length L crc)"
      by (simp add: unat_word_ariths)
    with a show "unat k0 \<le> unat n1" by (simp add: k0_def)
    from b show "unat n0 \<le> unat n1" by (simp add: word_le_nat_alt)
  qed
  obtain a0 a1 where st1: "decode_stage L s1 (b0, b1) = Inr (a0, a1)"
    and la: "length a0 = unat n1" "length a1 = unat n1"
    and ta: "take (unat n0) a0 = stage_decode L s1 (take (unat n1) b0)"
    using decode_stage_run [OF v(4) s1, of b0 "unat n1" b1] len v(2) pk
    unfolding n1_def [symmetric] by auto
  obtain c0 c1 where st0: "decode_stage L s0 (a0, a1) = Inr (c0, c1)"
    and lc: "length c0 = unat n1" "length c1 = unat n1"
    and tc: "take (unat k0) c0 = stage_decode L s0 (take (unat n0) a0)"
    using decode_stage_run [OF v(3) s0, of a0 "unat n1" a1] la v(1,2)
    unfolding n0_def [symmetric] by auto
  have pll: "plan_len c = 2" by (simp add: c_def fields_create)
  have "decode_plan_loop L (plan c) (plan_len c) (b0, b1) = Inr (c0, c1)"
    by (simp add: pl pll decode_plan_loop_two st0 st1)
  moreover have "take (unat k0) c0 = stage_decode L s0 (stage_decode L s1 b0)"
    using tc ta len pk by simp
  ultimately show ?thesis
    using lc by (simp add: pk s0_def s1_def k0_def)
qed

lemma constructed_fields:
  assumes "constructed L n crc fec0 fec1 p"
  shows "msg_len p = n" "check p = crc" "crc_length p = crc_get_length L crc"
    "packet_len p = packet_len (packetizer_create L n crc fec0 fec1)"
    "plan p = plan (packetizer_create L n crc fec0 fec1)"
    "plan_len p = plan_len (packetizer_create L n crc fec0 fec1)"
    "length (buffer_0 p) = unat (packet_len p)" "length (buffer_1 p) = unat (packet_len p)"
  using assms by (simp_all add: constructed_def Let_def fields_create)

lemma valid_room:
  assumes "valid_config L n crc fec0 fec1"
  shows "unat n + unat (crc_get_length L crc)
           \<le> unat (packet_len (packetizer_create L n crc fec0 fec1))"
    and "unat (n + crc_get_length L crc) = unat n + unat (crc_get_length L crc)"
proof -
  show a: "unat n + unat (crc_get_length L crc)
           \<le> unat (packet_len (packetizer_create L n crc fec0 fec1))"
    using assms
    by (simp add: valid_config_def Let_def fields_create packetizer_compute_enc_msg_len_def)
  have "unat (packet_len (packetizer_create L n crc fec0 fec1)) < 2 ^ LENGTH(32)"
    by (rule unsigned_less)
  with a have "unat n + unat (crc_get_length L crc) < 2 ^ LENGTH(32)" by (rule le_less_trans)
  then show "unat (n + crc_get_length L crc) = unat n + unat (crc_get_length L crc)"
    by (simp only: unat_add_lem [THEN iffD1])
qed

text \<open>
  A whole call of \<^verbatim>\<open>packetizer_encode\<close>: it succeeds, the packet is buffer 0 as the
  call leaves it, and it is the two stages applied to a block \<open>x\<close> made of the
  message and the big-endian bytes of its key.
\<close>

lemma encode_run:
  assumes valid: "valid_config L n crc fec0 fec1"
    and p: "constructed L n crc fec0 fec1 p"
    and msg: "length msg = unat n"
  shows "\<exists>b0 b1 x. packetizer_encode L p msg = Inr (p\<lparr>buffer_0 := b0, buffer_1 := b1\<rparr>, b0)
     \<and> length b0 = unat (packet_len p) \<and> length b1 = unat (packet_len p)
     \<and> length x = unat n + unat (crc_get_length L crc) \<and> take (unat n) x = msg
     \<and> (\<forall>j < unat (crc_get_length L crc). x ! (unat n + j) =
          ucast (drop_bit (8 * (unat (crc_get_length L crc) - 1 - j)) (crc_generate_key L crc msg)))
     \<and> b0 = stage_encode L (plan p ! 1) (stage_encode L (plan p ! 0) x)"
proof -
  define cl where "cl = crc_get_length L crc"
  define c where "c = packetizer_create L n crc fec0 fec1"
  define N where "N = unat (packet_len c)"
  define key where "key = crc_generate_key L crc msg"
  note pf = constructed_fields [OF p, folded c_def cl_def]
  have room: "unat n + unat cl \<le> N" and k0: "unat (n + cl) = unat n + unat cl"
    using valid_room [OF valid] by (simp_all add: N_def c_def cl_def)
  have lb: "length (buffer_0 p) = N" "length (buffer_1 p) = N"
    using pf by (simp_all add: N_def)
  define a0 where "a0 = msg @ drop (length msg) (buffer_0 p)"
  have la0: "length a0 = N" using lb room msg by (simp add: a0_def)
  have r1: "buf_read msg (unat n) = Inr msg"
    using msg by (simp add: buf_read_def)
  have w1: "buf_write (buffer_0 p) msg = Inr a0"
    using msg lb room by (simp add: buf_write_def a0_def)
  have r2: "buf_read a0 (unat n) = Inr msg"
    using msg by (simp add: buf_read_def a0_def)
  have N32: "N < 2 ^ 32" unfolding N_def using unsigned_less [of "packet_len c"] by simp
  obtain a1 where crc: "encode_crc_loop n cl 0 key a0 = Inr a1"
    and la1: "length a1 = N"
    and nth: "\<forall>pos < N. a1 ! pos =
        (if unat n \<le> pos \<and> pos < unat n + unat cl - unat (0 :: uint)
         then ucast (drop_bit (8 * (unat n + unat cl - unat (0 :: uint) - 1 - pos)) key)
         else a0 ! pos)"
    using encode_crc_loop_run [of n cl a0 0 key] room la0 N32 by auto
  define x where "x = take (unat (n + cl)) a1"
  have lx: "length x = unat n + unat cl" using la1 room k0 by (simp add: x_def)
  have tx: "take (unat n) x = msg"
  proof (rule nth_equalityI)
    show "length (take (unat n) x) = length msg" using lx msg by simp
    fix j
    assume "j < length (take (unat n) x)"
    then have j: "j < unat n" by simp
    then have "j < N" using room by simp
    then have "a1 ! j = a0 ! j" using nth j by simp
    then show "take (unat n) x ! j = msg ! j"
      using j msg k0 by (simp add: x_def a0_def nth_append)
  qed
  have kx: "x ! (unat n + j) = ucast (drop_bit (8 * (unat cl - 1 - j)) key)" if "j < unat cl" for j
  proof -
    have "unat n + j < N" using that room by simp
    moreover have "unat n + unat cl - 1 - (unat n + j) = unat cl - 1 - j" by simp
    ultimately have "a1 ! (unat n + j) = ucast (drop_bit (8 * (unat cl - 1 - j)) key)"
      using nth that by simp
    then show ?thesis using that k0 by (simp add: x_def)
  qed
  obtain b0 b1 where pl: "encode_plan_loop L (plan c) (plan_len c) 0 (a1, buffer_1 p) = Inr (b0, b1)"
    and lbb: "length b0 = N" "length b1 = N"
    and b0: "b0 = stage_encode L (plan c ! 1) (stage_encode L (plan c ! 0) x)"
    using encode_plan_run [OF valid, of a1 "buffer_1 p"] la1 lb
    unfolding c_def [symmetric] N_def [symmetric] x_def cl_def by auto
  have r3: "buf_read b0 (unat (packet_len c)) = Inr b0"
    using lbb by (simp add: buf_read_def N_def)
  have "packetizer_encode L p msg = Inr (p\<lparr>buffer_0 := b0, buffer_1 := b1\<rparr>, b0)"
    using crc pl
    by (simp add: packetizer_encode_def r1 w1 r2 r3 bind_error_Inr pf key_def)
  then show ?thesis
    using lbb lx tx kx b0 pf unfolding N_def cl_def key_def by auto
qed

text \<open>
  The key loop of the decoder returns, whatever the bytes it reads.
\<close>

lemma decode_crc_loop_total:
  assumes "unat ml + unat cl \<le> length b" and "unat ml + unat cl < 2 ^ 32" and "i \<le> cl"
  shows "\<exists>key'. decode_crc_loop ml cl i key b = Inr key'"
  using assms
proof (induction "unat cl - unat i" arbitrary: i key)
  case 0
  then have "i = cl" by (simp add: word_le_nat_alt word_unat_eq_iff)
  then show ?case by (subst decode_crc_loop.simps) simp
next
  case (Suc d)
  then have lt: "i < cl" by (simp add: word_less_nat_alt)
  have ui: "unat i < unat cl" using lt by (simp add: word_less_nat_alt)
  have idx: "unat (ml + i) = unat ml + unat i"
    using Suc.prems(2) lt by (rule crc_index_dec)
  have inb: "unat ml + unat i < length b" using Suc.prems(1) ui by arith
  have s: "unat (i + 1) = Suc (unat i)" using lt by (rule unat_word_succ)
  have d: "d = unat cl - unat (i + 1)" using Suc.hyps(2) s by simp
  have le: "i + 1 \<le> cl" using lt by (rule inc_le)
  obtain key' where
    "decode_crc_loop ml cl (i + 1) (push_bit 8 key OR ucast (b ! (unat ml + unat i))) b = Inr key'"
    using Suc.hyps(1) [OF d Suc.prems(1) Suc.prems(2) le] by blast
  with lt inb show ?case
    by (subst decode_crc_loop.simps) (simp add: idx Let_def)
qed


text \<open>
  Nothing before the last statement of \<^verbatim>\<open>packetizer_decode\<close> consults the validator.
\<close>

lemma decode_stage_upd:
  "decode_stage (L\<lparr>crc_validate_message := g\<rparr>) st bufs = decode_stage L st bufs"
  by (simp add: decode_stage_def)

lemma decode_plan_loop_upd:
  "decode_plan_loop (L\<lparr>crc_validate_message := g\<rparr>) pl i bufs = decode_plan_loop L pl i bufs"
proof (induction "unat i" arbitrary: i bufs)
  case 0
  then have "i = 0" by (simp add: unat_eq_0)
  then show ?case by (simp add: decode_plan_loop.simps)
next
  case (Suc d)
  then have pos: "0 < i" by (simp add: word_less_nat_alt)
  then have "d = unat (i - 1)" using Suc.hyps(2) unat_word_pred [OF pos] by simp
  then have ih: "decode_plan_loop (L\<lparr>crc_validate_message := g\<rparr>) pl (i - 1) bufs'
      = decode_plan_loop L pl (i - 1) bufs'" for bufs'
    by (rule Suc.hyps(1))
  show ?case
    by (subst (1 2) decode_plan_loop.simps) (simp add: decode_stage_upd ih split: sum.splits)
qed

text \<open>
  A whole call of \<^verbatim>\<open>packetizer_decode\<close>, with any validator \<open>g\<close> in the place of
  \<^verbatim>\<open>crc_validate_message\<close>: the buffers, the message copied out and the key handed
  to the validator are the same for every \<open>g\<close>.
\<close>

lemma decode_run:
  assumes valid: "valid_config L n crc fec0 fec1"
    and p: "constructed L n crc fec0 fec1 p"
    and pkt: "length pkt = unat (packet_len p)"
  shows "\<exists>b0 b1 key.
       (\<forall>g. packetizer_decode (L\<lparr>crc_validate_message := g\<rparr>) p pkt =
          Inr (p\<lparr>buffer_0 := b0, buffer_1 := b1\<rparr>, take (unat n) b0,
               g crc (take (unat n) b0) key))
     \<and> decode_crc_loop n (crc_get_length L crc) 0 0 b0 = Inr key
     \<and> length b0 = unat (packet_len p) \<and> length b1 = unat (packet_len p)
     \<and> take (unat n + unat (crc_get_length L crc)) b0
         = stage_decode L (plan p ! 0) (stage_decode L (plan p ! 1) pkt)"
proof -
  define cl where "cl = crc_get_length L crc"
  define c where "c = packetizer_create L n crc fec0 fec1"
  define N where "N = unat (packet_len c)"
  note pf = constructed_fields [OF p, folded c_def cl_def]
  have room: "unat n + unat cl \<le> N" and k0: "unat (n + cl) = unat n + unat cl"
    using valid_room [OF valid] by (simp_all add: N_def c_def cl_def)
  have lb: "length (buffer_0 p) = N" "length (buffer_1 p) = N"
    using pf by (simp_all add: N_def)
  have lp: "length pkt = N" using pkt pf by (simp add: N_def)
  have N32: "N < 2 ^ 32" unfolding N_def using unsigned_less [of "packet_len c"] by simp
  have r1: "buf_read pkt (unat (packet_len c)) = Inr pkt"
    using lp by (simp add: buf_read_def N_def)
  have w1: "buf_write (buffer_0 p) pkt = Inr pkt"
    using lp lb by (simp add: buf_write_def)
  obtain b0 b1 where pl: "decode_plan_loop L (plan c) (plan_len c) (pkt, buffer_1 p) = Inr (b0, b1)"
    and lbb: "length b0 = N" "length b1 = N"
    and b0: "take (unat (n + cl)) b0 = stage_decode L (plan c ! 0) (stage_decode L (plan c ! 1) pkt)"
    using decode_plan_run [OF valid, of pkt "buffer_1 p"] lp lb
    unfolding c_def [symmetric] N_def [symmetric] cl_def by auto
  obtain key where crc: "decode_crc_loop n cl 0 0 b0 = Inr key"
    using decode_crc_loop_total [of n cl b0 0 0] room lbb N32 by auto
  have r2: "buf_read b0 (unat n) = Inr (take (unat n) b0)"
    using lbb room by (simp add: buf_read_def)
  have "packetizer_decode (L\<lparr>crc_validate_message := g\<rparr>) p pkt =
        Inr (p\<lparr>buffer_0 := b0, buffer_1 := b1\<rparr>, take (unat n) b0,
             g crc (take (unat n) b0) key)" for g
    using crc pl
    by (simp add: packetizer_decode_def decode_plan_loop_upd r1 w1 r2 bind_error_Inr pf)
  then show ?thesis
    using crc lbb b0 pf k0 unfolding N_def cl_def by auto
qed


text \<open>
  A stage that loses nothing: decoding what it encoded gives the block back.
\<close>

lemma stage_roundtrip:
  fixes L fs_i k
  defines "e \<equiv> fec_get_enc_msg_length L fs_i k"
  assumes fits: "stage_fits L fs_i k" and inv: "stage_inverts L fs_i k"
    and st: "dec_msg_len st = k" "f st = Fec fs_i"
      "q st = Interleaver e (LIQUID_INTERLEAVER_BLOCK L)"
    and x: "length x = unat k"
  shows "stage_decode L st (stage_encode L st x) = x"
    and "length (stage_encode L st x) = unat e"
proof -
  have lc: "length (fec_encode L (Fec fs_i) k x) = unat e"
    using fits x by (simp add: stage_fits_def Let_def e_def)
  then show "length (stage_encode L st x) = unat e"
    using fits by (simp add: stage_encode_def st stage_fits_def Let_def e_def)
  show "stage_decode L st (stage_encode L st x) = x"
    using inv x lc by (simp add: stage_decode_def stage_encode_def st stage_inverts_def Let_def e_def)
qed

section \<open>Properties of encoding and decoding\<close>

text \<open>
  The scenario is a valid configuration whose collaborators lose nothing.
\<close>

lemma scenario_valid: "valid_config scenario 8 0 0 1"
  by (simp add: valid_config_def stage_fits_def Let_def scenario_def)

lemma scenario_lossless: "lossless scenario 8 0 0 1"
  by (simp add: lossless_def crc_sound_def stage_inverts_def Let_def scenario_def)





text \<open>
  C1. For a valid configuration whose collaborators lose nothing, a message of
  \<open>msg_len\<close> bytes encoded by a packetizer \<open>p\<close> constructed for it and decoded, as
  it is, by a packetizer \<open>r\<close> constructed for it (the encoder after its call, or any
  other) comes back byte for byte, with a validity that is not zero.
\<close>

theorem roundtrip:
  assumes valid: "valid_config L n crc fec0 fec1"
    and inv: "lossless L n crc fec0 fec1"
    and p: "constructed L n crc fec0 fec1 p"
    and r: "constructed L n crc fec0 fec1 r"
    and msg: "length msg = unat n"
  shows "\<exists>p' pkt. packetizer_encode L p msg = Inr (p', pkt)
     \<and> constructed L n crc fec0 fec1 p'
     \<and> (\<exists>r' v. packetizer_decode L r pkt = Inr (r', msg, v) \<and> v \<noteq> 0)"
proof -
  define cl where "cl = crc_get_length L crc"
  define k0 where "k0 = n + cl"
  define n0 where "n0 = fec_get_enc_msg_length L fec0 k0"
  define n1 where "n1 = fec_get_enc_msg_length L fec1 n0"
  define c where "c = packetizer_create L n crc fec0 fec1"
  define s0 where "s0 = plan c ! 0"
  define s1 where "s1 = plan c ! 1"
  define K where "K = crc_generate_key L crc msg"
  note pf = constructed_fields [OF p, folded c_def cl_def]
  note rf = constructed_fields [OF r, folded c_def cl_def]
  have pk: "packet_len c = n1"
    by (simp add: c_def fields_create packetizer_compute_enc_msg_len_def n1_def n0_def k0_def cl_def)
  have s0: "dec_msg_len s0 = k0" "f s0 = Fec fec0"
      "q s0 = Interleaver (fec_get_enc_msg_length L fec0 k0) (LIQUID_INTERLEAVER_BLOCK L)"
    by (simp_all add: s0_def c_def plan_create k0_def cl_def)
  have s1: "dec_msg_len s1 = n0" "f s1 = Fec fec1"
      "q s1 = Interleaver (fec_get_enc_msg_length L fec1 n0) (LIQUID_INTERLEAVER_BLOCK L)"
    by (simp_all add: s1_def c_def plan_create k0_def n0_def cl_def packetizer_compute_enc_msg_len_def)
  have fits: "stage_fits L fec0 k0" "stage_fits L fec1 n0"
    using valid by (simp_all add: valid_config_def Let_def k0_def n0_def cl_def)
  have invs: "stage_inverts L fec0 k0" "stage_inverts L fec1 n0" and crc: "crc_sound L crc"
    using inv by (simp_all add: lossless_def Let_def k0_def n0_def cl_def)
  have room: "unat n + unat cl \<le> unat n1" and uk0: "unat k0 = unat n + unat cl"
    using valid_room [OF valid] by (simp_all add: c_def [symmetric] pk cl_def k0_def)
  obtain b0 b1 x where enc: "packetizer_encode L p msg = Inr (p\<lparr>buffer_0 := b0, buffer_1 := b1\<rparr>, b0)"
    and len: "length b0 = unat (packet_len p)" "length b1 = unat (packet_len p)"
    and lx: "length x = unat n + unat cl" and tx: "take (unat n) x = msg"
    and kx: "\<forall>j < unat cl. x ! (unat n + j) = ucast (drop_bit (8 * (unat cl - 1 - j)) K)"
    and b0: "b0 = stage_encode L (plan p ! 1) (stage_encode L (plan p ! 0) x)"
    using encode_run [OF valid p msg] unfolding cl_def K_def by blast
  have cp: "constructed L n crc fec0 fec1 (p\<lparr>buffer_0 := b0, buffer_1 := b1\<rparr>)"
    using p len by (rule constructed_buffers)
  have lpkt: "length b0 = unat (packet_len r)" using len pf rf by simp
  obtain d0 d1 key where
    dec: "\<forall>g. packetizer_decode (L\<lparr>crc_validate_message := g\<rparr>) r b0 =
          Inr (r\<lparr>buffer_0 := d0, buffer_1 := d1\<rparr>, take (unat n) d0,
               g crc (take (unat n) d0) key)"
    and dkey: "decode_crc_loop n cl 0 0 d0 = Inr key"
    and dlen: "length d0 = unat (packet_len r)"
    and data: "take (unat n + unat cl) d0
         = stage_decode L (plan r ! 0) (stage_decode L (plan r ! 1) b0)"
    using decode_run [OF valid r lpkt] unfolding cl_def by blast
  have x0: "stage_decode L s0 (stage_encode L s0 x) = x"
    and l0: "length (stage_encode L s0 x) = unat n0"
    using stage_roundtrip [OF fits(1) invs(1) s0] lx uk0 by (simp_all add: n0_def)
  have x1: "stage_decode L s1 (stage_encode L s1 (stage_encode L s0 x)) = stage_encode L s0 x"
    using stage_roundtrip(1) [OF fits(2) invs(2) s1 l0] .
  have undo: "take (unat n + unat cl) d0 = x"
    using data b0 x0 x1 by (simp add: pf rf s0_def s1_def)
  have dl: "unat n + unat cl \<le> length d0" using dlen rf pk room by simp
  have "take (unat n) (take (unat n + unat cl) d0) = take (unat n) d0" by (simp add: min_def)
  then have m: "take (unat n) d0 = msg" using undo tx by simp
  have bytes: "\<forall>j. unat (0 :: uint) \<le> j \<and> j < unat cl \<longrightarrow>
      d0 ! (unat n + j) = ucast (drop_bit (8 * (unat cl - 1 - j)) K)"
  proof (intro allI impI)
    fix j
    assume "unat (0 :: uint) \<le> j \<and> j < unat cl"
    then have j: "j < unat cl" by simp
    then have "take (unat n + unat cl) d0 ! (unat n + j) = d0 ! (unat n + j)" by simp
    then show "d0 ! (unat n + j) = ucast (drop_bit (8 * (unat cl - 1 - j)) K)"
      using undo kx j by simp
  qed
  have "take_bit (8 * unat cl) K = K"
    using crc by (simp add: crc_sound_def K_def cl_def)
  then have zero: "(0 :: uint) = drop_bit (8 * (unat cl - unat (0 :: uint))) K"
    by (simp add: take_bit_eq_self_iff_drop_bit_eq_0)
  have n32: "unat n + unat cl < 2 ^ 32"
  proof -
    have "unat n1 < 2 ^ LENGTH(32)" by (rule unsigned_less)
    with room show ?thesis by simp
  qed
  have "decode_crc_loop n cl 0 0 d0 = Inr K"
    using dl n32 _ bytes zero by (rule decode_crc_loop_run) simp
  with dkey have key: "key = K" by simp
  have ok: "crc_validate_message L crc msg K \<noteq> 0"
    using crc by (simp add: crc_sound_def K_def)
  have "L\<lparr>crc_validate_message := crc_validate_message L\<rparr> = L" by simp
  then have "packetizer_decode L r b0 =
          Inr (r\<lparr>buffer_0 := d0, buffer_1 := d1\<rparr>, msg, crc_validate_message L crc msg K)"
    using dec [rule_format, of "crc_validate_message L"] m key by simp
  with enc cp ok show ?thesis by blast
qed

theorem roundtrip_witness:
  "\<exists>p' pkt. packetizer_encode scenario (packetizer_create scenario 8 0 0 1)
        [1, 2, 3, 4, 5, 6, 7, 255] = Inr (p', pkt)
     \<and> constructed scenario 8 0 0 1 p'
     \<and> (\<exists>r' v. packetizer_decode scenario (packetizer_create scenario 8 0 0 1) pkt
           = Inr (r', [1, 2, 3, 4, 5, 6, 7, 255], v) \<and> v \<noteq> 0)"
proof -
  have c: "constructed scenario 8 0 0 1 (packetizer_create scenario 8 0 0 1)"
    by (rule constructed_create)
  have l: "length [1, 2, 3, 4, 5, 6, 7, 255 :: byte] = unat (8 :: uint)" by simp
  show ?thesis
    by (rule roundtrip [OF scenario_valid scenario_lossless c c l])
qed

section \<open>Properties of reconfiguration\<close>

text \<open>The plan of a constructed packetizer, and what allocation and release do to the heap.\<close>

lemma constructed_plan:
  assumes "constructed L n crc fec0 fec1 p"
  shows "length (plan p) = 2" "plan_len p = 2" "fs (plan p ! 0) = fec0" "fs (plan p ! 1) = fec1"
    "msg_len p = n" "check p = crc"
  using assms by (simp_all add: constructed_def Let_def plan_create fields_create)

lemma deref_alloc: "deref (snd (heap_alloc hp obj)) (fst (heap_alloc hp obj)) = Some obj"
  by (simp add: deref_def heap_alloc_def)

lemma deref_alloc_other: "deref hp b = Some x \<Longrightarrow> deref (snd (heap_alloc hp obj)) b = Some x"
  by (auto simp: deref_def heap_alloc_def nth_append split: if_splits)

lemma deref_free: "deref (heap_free hp a) b = (if b = a then None else deref hp b)"
proof (cases "a = 0 \<or> b = 0")
  case True
  then show ?thesis by (auto simp: deref_def heap_free_def)
next
  case False
  then have "a - 1 = b - 1 \<longleftrightarrow> a = b" by arith
  with False show ?thesis by (auto simp: deref_def heap_free_def nth_list_update)
qed

text \<open>
  C5. For a packetizer that exists at address \<open>a\<close>, constructed for the parameters
  \<open>(n', crc', fec0', fec1')\<close>: \<^verbatim>\<open>packetizer_recreate\<close> with these same parameters
  returns the same pointer and leaves the whole heap, the object included, as it was;
  with parameters that differ in any component it destroys the object (its address
  holds nothing afterwards, every other object is untouched) and returns a newly
  allocated object, the one \<^verbatim>\<open>packetizer_create\<close> builds for the new parameters.
\<close>

theorem recreate_same_or_fresh:
  assumes "deref hp a = Some obj" and "constructed L n' crc' fec0' fec1' obj"
  shows "packetizer_recreate L hp a n' crc' fec0' fec1' = Inr (a, hp)
     \<and> ((n, crc, fec0, fec1) \<noteq> (n', crc', fec0', fec1') \<longrightarrow>
         (\<exists>hp'. packetizer_destroy hp a = Inr hp' \<and> deref hp' a = None
            \<and> (\<forall>b. b \<noteq> a \<longrightarrow> deref hp' b = deref hp b)
            \<and> packetizer_recreate L hp a n crc fec0 fec1
                = Inr (heap_alloc hp' (packetizer_create L n crc fec0 fec1))
            \<and> deref (snd (heap_alloc hp' (packetizer_create L n crc fec0 fec1)))
                 (fst (heap_alloc hp' (packetizer_create L n crc fec0 fec1)))
                = Some (packetizer_create L n crc fec0 fec1)
            \<and> constructed L n crc fec0 fec1 (packetizer_create L n crc fec0 fec1)))"
proof -
  note c = constructed_plan [OF assms(2)]
  have a: "a \<noteq> 0" using assms(1) by (auto simp: deref_def split: if_splits)
  have same: "packetizer_recreate L hp a n' crc' fec0' fec1' = Inr (a, hp)"
    using a assms(1) c by (simp add: packetizer_recreate_def)
  have "destroy_plan_loop (plan obj) (plan_len obj) 0 = Inr ()"
    using constructed_fields(5) [OF assms(2)] c(2)
    by (simp add: plan_create destroy_plan_loop.simps)
  then have d: "packetizer_destroy hp a = Inr (heap_free hp a)"
    using assms(1) by (simp add: packetizer_destroy_def bind_error_Inr)
  have fresh: "packetizer_recreate L hp a n crc fec0 fec1
      = Inr (heap_alloc (heap_free hp a) (packetizer_create L n crc fec0 fec1))"
    if "(n, crc, fec0, fec1) \<noteq> (n', crc', fec0', fec1')"
    using that a assms(1) c d
    by (auto simp: packetizer_recreate_def Let_def bind_error_Inr)
  show ?thesis
    using same d fresh
    by (auto simp: deref_free deref_alloc constructed_create)
qed

theorem recreate_same_or_fresh_witness:
  "packetizer_recreate scenario scenario_heap 1 8 0 0 1 = Inr (1, scenario_heap)
   \<and> packetizer_recreate scenario scenario_heap 1 4 0 0 1
       = Inr (2, [None, Some (packetizer_create scenario 4 0 0 1)])"
proof -
  have d: "deref scenario_heap 1 = Some (packetizer_create scenario 8 0 0 1)"
    by (simp add: deref_def scenario_heap_def)
  have c: "constructed scenario 8 0 0 1 (packetizer_create scenario 8 0 0 1)"
    by (rule constructed_create)
  have ne: "(4 :: uint, 0 :: cint, 0 :: cint, 1 :: cint) \<noteq> (8, 0, 0, 1)" by simp
  have f: "packetizer_destroy scenario_heap 1 = Inr [None]"
    by (simp add: packetizer_destroy_def deref_def scenario_heap_def heap_free_def
        fields_create plan_create destroy_plan_loop.simps bind_error_Inr)
  from recreate_same_or_fresh [OF d c, of 4 0 0 1] ne f show ?thesis
    by (auto simp: heap_alloc_def)
qed

section \<open>Properties of the half-band resampler\<close>

text \<open>The two checks: each ends the process with status 1 and its message.\<close>

lemma resamp2_create_short:
  "m_arg < 2 \<Longrightarrow> resamp2_create D m_arg fc_arg As_arg =
     Some (Inl (Exit 1 ''error: resamp2_xxxt_create(), filter semi-length must be at least 2''))"
  by (simp add: resamp2_create_def)

lemma resamp2_create_off_centre:
  "\<not> m_arg < 2 \<Longrightarrow> flt_less fc_arg (Finite (- 1 / 2)) \<or> flt_less (Finite (1 / 2)) fc_arg \<Longrightarrow>
   resamp2_create D m_arg fc_arg As_arg =
     Some (Inl (Exit 1 ''error: resamp2_xxxt_create(), fc (%12.4e) must be in (-1,1)''))"
  by (simp add: resamp2_create_def)


text \<open>
  The design loop from tap \<open>i\<close> on writes every tap from \<open>i\<close> to the last; the
  second loop, while \<open>i = 2 j + 1\<close> and the prototype has \<open>2 n + 1\<close> taps, writes the
  branch coefficients \<open>j, ..., n - 1\<close>.
\<close>

lemma design_loop_run:
  assumes "length hs = unat len" and "i \<le> len"
  shows "\<exists>hs'. design_loop D len fc_f beta i hs = Inr hs' \<and> length hs' = length hs
     \<and> (\<forall>k < length hs. hs' ! k =
           (if unat i \<le> k then Some (prototype D (of_nat k) len fc_f beta) else hs ! k))"
  using assms
proof (induction "unat len - unat i" arbitrary: i hs)
  case 0
  then have "i = len" by (simp add: word_le_nat_alt word_unat_eq_iff)
  with 0 show ?case by (subst design_loop.simps) auto
next
  case (Suc d)
  then have lt: "i < len" by (simp add: word_less_nat_alt)
  have ui: "unat i < unat len" using lt by (simp add: word_less_nat_alt)
  have s: "unat (i + 1) = Suc (unat i)" using lt by (rule unat_word_succ)
  have d: "d = unat len - unat (i + 1)" using Suc.hyps(2) s by simp
  have le: "i + 1 \<le> len" using lt by (rule inc_le)
  let ?hs = "hs[unat i := Some (prototype D i len fc_f beta)]"
  have len: "length ?hs = unat len" using Suc.prems(1) by simp
  obtain hs' where run: "design_loop D len fc_f beta (i + 1) ?hs = Inr hs'"
    and l: "length hs' = length ?hs"
    and nth: "\<forall>k < length ?hs. hs' ! k =
           (if unat (i + 1) \<le> k then Some (prototype D (of_nat k) len fc_f beta) else ?hs ! k)"
    using Suc.hyps(1) [OF d len le] by blast
  have step: "design_loop D len fc_f beta i hs = Inr hs'"
    using lt ui run Suc.prems(1) by (subst design_loop.simps) simp
  have "hs' ! k = (if unat i \<le> k then Some (prototype D (of_nat k) len fc_f beta) else hs ! k)"
    if k: "k < length hs" for k
  proof (cases "k = unat i")
    case True
    then have "(of_nat k :: uint) = i" by simp
    with True k nth s show ?thesis by simp
  next
    case False
    with k nth s show ?thesis by auto
  qed
  with step l show ?case by simp
qed

lemma resample_loop_run:
  assumes "length hs = unat len" and "unat len = 2 * n + 1" and "n \<le> length hs1"
    and "unat i = 2 * unat j + 1" and "unat j \<le> n"
  shows "\<exists>hs1'. resample_loop len hs i j hs1 = Some (Inr hs1') \<and> length hs1' = length hs1
     \<and> (\<forall>k < length hs1. hs1' ! k =
           (if unat j \<le> k \<and> k < n then hs ! (unat len - (2 * k + 1) - 1) else hs1 ! k))"
  using assms
proof (induction "n - unat j" arbitrary: i j hs1)
  case 0
  then have jn: "unat j = n" by simp
  then have "unat i = unat len" using "0.prems" by simp
  then have "\<not> i < len" by (simp add: word_less_nat_alt)
  then show ?case using jn by (subst resample_loop.simps) auto
next
  case (Suc d)
  then have jn: "unat j < n" by simp
  then have ui: "unat i + 2 \<le> unat len" using Suc.prems by simp
  then have lt: "i < len" by (simp add: word_less_nat_alt)
  have l32: "unat len < 2 ^ 32" using unsigned_less [of len] by simp
  have i2: "unat (i + 2) = unat i + 2"
    using ui l32 by (simp add: unat_add_lem [THEN iffD1])
  have j1: "unat (j + 1) = Suc (unat j)"
  proof -
    have "unat j + unat (1 :: uint) < 2 ^ LENGTH(32)" using jn Suc.prems(2) l32 by simp
    then show ?thesis by (simp add: unat_add_lem [THEN iffD1])
  qed
  have rd: "unat (len - i - 1) = unat len - unat i - 1"
  proof -
    have a: "i \<le> len" using lt by simp
    then have b: "unat (len - i) = unat len - unat i" by (simp add: unat_sub)
    then have "1 \<le> len - i" using ui by (simp add: word_le_nat_alt)
    then show ?thesis using b by (simp add: unat_sub)
  qed
  have inb: "unat j < length hs1" "unat (len - i - 1) < length hs"
    using jn Suc.prems(1,3) ui rd by simp_all
  let ?hs1 = "hs1[unat j := hs ! unat (len - i - 1)]"
  have d: "d = n - unat (j + 1)" using Suc.hyps(2) j1 by simp
  obtain hs1' where run: "resample_loop len hs (i + 2) (j + 1) ?hs1 = Some (Inr hs1')"
    and l: "length hs1' = length ?hs1"
    and nth: "\<forall>k < length ?hs1. hs1' ! k =
           (if unat (j + 1) \<le> k \<and> k < n then hs ! (unat len - (2 * k + 1) - 1) else ?hs1 ! k)"
    using Suc.hyps(1) [OF d Suc.prems(1,2), of ?hs1 "i + 2"] Suc.prems(3,4) jn i2 j1
    by auto
  have step: "resample_loop len hs i j hs1 = Some (Inr hs1')"
    using lt inb run by (subst resample_loop.simps) simp
  have "hs1' ! k = (if unat j \<le> k \<and> k < n then hs ! (unat len - (2 * k + 1) - 1) else hs1 ! k)"
    if k: "k < length hs1" for k
  proof (cases "k = unat j")
    case True
    have "unat len - unat i - 1 = unat len - (2 * unat j + 1) - 1" using Suc.prems(4) by simp
    with True k nth j1 jn rd show ?thesis by simp
  next
    case False
    with k nth j1 show ?thesis by auto
  qed
  with step l show ?case by simp
qed


text \<open>
  Below \<open>2^30\<close> the lengths do not wrap around, and construction with a semi-length
  of at least 2 and a centre frequency that passes the comparisons returns an object
  with every field set and every tap and branch coefficient written.
\<close>

lemma resamp2_create_initialized:
  assumes m2: "2 \<le> m_arg" and small: "unat m_arg < 2 ^ 30"
    and lo: "\<not> flt_less fc_arg (Finite (- 1 / 2))" and hi: "\<not> flt_less (Finite (1 / 2)) fc_arg"
  shows "\<exists>r. resamp2_create D m_arg fc_arg As_arg = Some (Inr r)
     \<and> m r = m_arg \<and> fc r = fc_arg \<and> As r = As_arg
     \<and> unat (h_len r) = 4 * unat m_arg + 1 \<and> length (h r) = unat (h_len r)
     \<and> unat (h1_len r) = 2 * unat m_arg \<and> length (h1 r) = unat (h1_len r)
     \<and> list_all (\<lambda>c. c \<noteq> None) (h r) \<and> list_all (\<lambda>c. c \<noteq> None) (h1 r)
     \<and> w0 r = window_clear D (window_create D (2 * m_arg))
     \<and> w1 r = window_clear D (window_create D (2 * m_arg))"
proof -
  define len where "len = 4 * m_arg + 1"
  define len1 where "len1 = 2 * m_arg"
  define beta where "beta = kaiser_beta_As D As_arg"
  have u4: "unat (4 * m_arg) = 4 * unat m_arg"
    using small by (simp add: unat_word_ariths)
  have ul: "unat len = 4 * unat m_arg + 1"
    using small u4 by (simp add: len_def unat_word_ariths)
  have ul1: "unat len1 = 2 * unat m_arg"
    using small by (simp add: len1_def unat_word_ariths)
  obtain hs where des: "design_loop D len fc_arg beta 0 (malloc_cells (unat len)) = Inr hs"
    and lhs: "length hs = unat len"
    and nhs: "\<forall>k < unat len. hs ! k =
           (if unat (0 :: uint) \<le> k then Some (prototype D (of_nat k) len fc_arg beta)
            else malloc_cells (unat len) ! k)"
    using design_loop_run [of "malloc_cells (unat len)" len 0 D fc_arg beta]
    by (auto simp: malloc_cells_def)
  have hall: "list_all (\<lambda>c. c \<noteq> None) hs"
    using nhs lhs by (simp add: list_all_length)
  have pre: "unat len = 2 * (2 * unat m_arg) + 1" using ul by simp
  obtain hs1 where res: "resample_loop len hs 1 0 (malloc_cells (unat len1)) = Some (Inr hs1)"
    and lhs1: "length hs1 = unat len1"
    and nhs1: "\<forall>k < unat len1. hs1 ! k =
           (if unat (0 :: uint) \<le> k \<and> k < 2 * unat m_arg then hs ! (unat len - (2 * k + 1) - 1)
            else malloc_cells (unat len1) ! k)"
    using resample_loop_run [OF lhs pre, of "malloc_cells (unat len1)" 1 0] ul1
    by (auto simp: malloc_cells_def)
  have h1all: "list_all (\<lambda>c. c \<noteq> None) hs1"
    unfolding list_all_length
  proof (intro allI impI)
    fix k
    assume "k < length hs1"
    then have k: "k < 2 * unat m_arg" using lhs1 ul1 by simp
    then have "unat len - (2 * k + 1) - 1 < length hs" using lhs ul by simp
    then have "hs ! (unat len - (2 * k + 1) - 1) \<noteq> None"
      using hall by (simp add: list_all_length)
    then show "hs1 ! k \<noteq> None" using nhs1 k ul1 by simp
  qed
  have "\<not> m_arg < 2" using m2 by simp
  then have "resamp2_create D m_arg fc_arg As_arg =
      Some (Inr \<lparr> h = hs, m = m_arg, h_len = len, fc = fc_arg, As = As_arg,
                   h1 = hs1, h1_len = len1,
                   w0 = window_clear D (window_create D (2 * m_arg)),
                   w1 = window_clear D (window_create D (2 * m_arg)) \<rparr>)"
    using lo hi des res
    by (simp add: resamp2_create_def Let_def len_def [symmetric] len1_def [symmetric]
        beta_def [symmetric])
  then show ?thesis
    using ul ul1 lhs lhs1 hall h1all by simp
qed

text \<open>
  C9 fails on the code for a large semi-length. The semi-length \<open>2^30\<close> with centre
  frequency 0 passes both checks; \<open>4 * m + 1\<close> wraps around to 1, so the prototype has
  one tap, the loop that fills the branch coefficients does not run, and the object
  returned has \<open>h1_len = 2^31\<close> branch coefficients none of which was ever written.
\<close>

theorem resamp2_create_wraps:
  "resamp2_create D 1073741824 (Finite 0) Y = Some (Inr
   \<lparr> h = [Some (prototype D 0 1 (Finite 0) (kaiser_beta_As D Y))],
     m = 1073741824, h_len = 1, fc = Finite 0, As = Y,
     h1 = malloc_cells 2147483648,
     h1_len = 2147483648,
     w0 = window_clear D (window_create D 2147483648),
     w1 = window_clear D (window_create D 2147483648) \<rparr>)"
proof -
  have a: "malloc_cells (Suc 0) = [None :: 'a option]" by (simp add: malloc_cells_def)
  have b: "4 * (1073741824 :: uint) + 1 = 1" by simp
  show ?thesis
    unfolding resamp2_create_def Let_def b
    by (simp add: design_loop.simps resample_loop.simps a)
qed

end
